theory Spec2Isabelle
  imports Complex_Main "HOL-Library.Word"
begin

section \<open>Telnet video streaming server: embedding of \<open>app.js\<close>\<close>

text \<open>
  The server is a single-threaded Node program: every handler runs to completion, so each
  handler is a function from the state it reads to the state it leaves.  Buffers are lists
  of bytes, JavaScript \<open>undefined\<close> is \<open>None\<close>, and the socket object with the properties
  the program attaches to it is a record.
\<close>

type_synonym byte = "8 word"

subsection \<open>Telnet constants\<close>

definition TELNET_IAC :: byte where "TELNET_IAC = 255"
definition TELNET_DO :: byte where "TELNET_DO = 253"
definition TELNET_SB :: byte where "TELNET_SB = 250"
definition TELNET_SE :: byte where "TELNET_SE = 240"
definition TELNET_NAWS :: byte where "TELNET_NAWS = 31"

subsection \<open>The client socket\<close>

text \<open>
  \<open>cols\<close>, \<open>rows\<close> and \<open>mode\<close> are the properties the program sets on the socket; they are
  \<open>undefined\<close> (\<open>None\<close>) until assigned.  \<open>destroyed\<close> and \<open>writableLength\<close> are the
  properties of \<open>net.Socket\<close> the program reads, \<open>ended\<close> records a call of \<open>end()\<close> and
  \<open>written\<close> the arguments of the calls of \<open>write\<close>, oldest first.
\<close>

record sock =
  cols :: "nat option"
  rows :: "nat option"
  mode :: "nat option"
  destroyed :: bool
  ended :: bool
  writableLength :: nat
  written :: "string list"

datatype js_error = RangeError | TypeError

subsection \<open>Buffer reads\<close>

text \<open>\<open>data[i]\<close> on a Buffer: the byte, or \<open>undefined\<close> outside the buffer.\<close>

definition elemAt :: "'a list \<Rightarrow> nat \<Rightarrow> 'a option" where
  "elemAt data i = (if i < length data then Some (data ! i) else None)"

text \<open>\<open>data.readUInt16BE(off)\<close> throws a RangeError unless two bytes are there.\<close>

definition readUInt16BE :: "byte list \<Rightarrow> nat \<Rightarrow> js_error + nat" where
  "readUInt16BE data off =
     (if off + 1 < length data
      then Inr (unat (data ! off) * 256 + unat (data ! (off + 1)))
      else Inl RangeError)"

subsection \<open>parseNAWS\<close>

text \<open>
  The \<open>for\<close> loop of \<open>parseNAWS\<close>, from index \<open>i\<close>.  The result is \<open>Inr\<close> of the socket when
  the loop runs to its end, and \<open>Inl\<close> of the error and the socket as it was when the error
  was thrown.
\<close>

function parseNAWS_loop :: "byte list \<Rightarrow> nat \<Rightarrow> sock \<Rightarrow> (js_error \<times> sock) + sock" where
  "parseNAWS_loop data i s =
     (if i + 8 < length data then
        (if elemAt data i = Some TELNET_IAC \<and> elemAt data (i + 1) = Some TELNET_SB
              \<and> elemAt data (i + 2) = Some TELNET_NAWS then
           (if elemAt data (i + 7) \<noteq> Some TELNET_IAC \<or> elemAt data (i + 8) \<noteq> Some TELNET_SE
            then parseNAWS_loop data (i + 1) s
            else
              (case readUInt16BE data (i + 3) of
                 Inl e \<Rightarrow> Inl (e, s)
               | Inr w \<Rightarrow>
                  (case readUInt16BE data (i + 5) of
                     Inl e \<Rightarrow> Inl (e, s)
                   | Inr h \<Rightarrow>
                       parseNAWS_loop data (i + 1)
                         (if w > 0 \<and> h > 0 then s\<lparr>cols := Some w, rows := Some h\<rparr> else s))))
         else parseNAWS_loop data (i + 1) s)
      else Inr s)"
  by pat_completeness auto
termination
  by (relation "measure (\<lambda>(data, i, s). length data - i)") auto

declare parseNAWS_loop.simps [simp del]

text \<open>The body of the \<open>try\<close> block, and the function with its empty \<open>catch\<close>.\<close>

definition parseNAWS_try :: "sock \<Rightarrow> byte list \<Rightarrow> (js_error \<times> sock) + sock" where
  "parseNAWS_try s data = parseNAWS_loop data 0 s"

definition parseNAWS :: "sock \<Rightarrow> byte list \<Rightarrow> sock" where
  "parseNAWS s data = (case parseNAWS_try s data of Inl (e, s') \<Rightarrow> s' | Inr s' \<Rightarrow> s')"

text \<open>
  A complete window-size report stands at offset \<open>i\<close> of the chunk: the nine bytes
  \<open>IAC SB NAWS w w h h IAC SE\<close>, all inside the chunk.
\<close>

definition nawsAt :: "byte list \<Rightarrow> nat \<Rightarrow> bool" where
  "nawsAt data i \<longleftrightarrow>
     i + 8 < length data \<and> data ! i = TELNET_IAC \<and> data ! (i + 1) = TELNET_SB
     \<and> data ! (i + 2) = TELNET_NAWS \<and> data ! (i + 7) = TELNET_IAC \<and> data ! (i + 8) = TELNET_SE"

definition nawsW :: "byte list \<Rightarrow> nat \<Rightarrow> nat" where
  "nawsW data i = unat (data ! (i + 3)) * 256 + unat (data ! (i + 4))"

definition nawsH :: "byte list \<Rightarrow> nat \<Rightarrow> nat" where
  "nawsH data i = unat (data ! (i + 5)) * 256 + unat (data ! (i + 6))"

definition ESC :: char where "ESC = CHR 0x1B"
definition NL :: char where "NL = CHR 0x0A"

text \<open>
  The socket of a client when the \<open>createServer\<close> callback returns: the mode is the
  default, no geometry is known, and the request for the window size (\<open>IAC DO NAWS\<close>) and
  the clear, home and hide-cursor sequence have been written.
\<close>

definition MODE_DEFAULT :: nat where "MODE_DEFAULT = 2"

definition newSock :: sock where
  "newSock = \<lparr>cols = None, rows = None, mode = Some MODE_DEFAULT, destroyed = False,
     ended = False, writableLength = 0,
     written = [[CHR 0xFF, CHR 0xFD, CHR 0x1F],
                ESC # ''[2J'' @ ESC # ''[H'' @ ESC # ''[?25l'']\<rparr>"


subsection \<open>Configuration\<close>

text \<open>
  The object \<open>CFG\<close>.  \<open>baseW\<close> and \<open>baseH\<close> come from the command line (\<open>--width\<close>,
  \<open>--height\<close>); the other fields are the literals of the source.  The base size is a
  natural number: the decoder is asked for frames of \<open>baseW * baseH\<close> pixels.
\<close>

record config =
  baseW :: nat
  baseH :: nat
  chars :: string
  charAspect :: rat
  dropIfBufferedOver :: nat
  quitKeys :: "string list"

definition CFG :: "nat \<Rightarrow> nat \<Rightarrow> config" where
  "CFG w h = \<lparr>baseW = w, baseH = h, chars = '' .:-=+*#%@'', charAspect = 2,
     dropIfBufferedOver = 1024 * 1024, quitKeys = [''q'', ''Q'']\<rparr>"

subsection \<open>Numbers\<close>

text \<open>
  A JavaScript number is a double: a rational that has 53 significant bits (fewer below
  \<open>2^-1022\<close>), an infinity or \<open>NaN\<close>.  The same shape with an integer inside stands for
  the numbers that \<open>Math.floor\<close> returns.  The sign of zero is not modelled: no operand of
  \<open>computeFit\<close> is negative.
\<close>

datatype 'a js = Val 'a | PosInfinity | NegInfinity | NaN

type_synonym number = "rat js"

text \<open>
  \<open>exponent x\<close> is the \<open>e\<close> with \<open>2^e \<le> x < 2^(e+1)\<close>, for a positive \<open>x\<close>, found by
  halving or doubling.
\<close>

function log2_up :: "rat \<Rightarrow> nat" where
  "log2_up x = (if 2 \<le> x then Suc (log2_up (x / 2)) else 0)"
  by pat_completeness auto
termination
proof (relation "measure (\<lambda>x. nat \<lfloor>x\<rfloor>)")
  show "wf (measure (\<lambda>x::rat. nat \<lfloor>x\<rfloor>))" by simp
next
  fix x :: rat
  assume x: "2 \<le> x"
  have "x / 2 \<le> x - 1" using x by simp
  then have "\<lfloor>x / 2\<rfloor> \<le> \<lfloor>x - 1\<rfloor>" by (rule floor_mono)
  moreover have "2 \<le> \<lfloor>x\<rfloor>" using x by (simp add: le_floor_iff)
  ultimately show "(x / 2, x) \<in> measure (\<lambda>x. nat \<lfloor>x\<rfloor>)" by simp
qed

function log2_down :: "rat \<Rightarrow> nat" where
  "log2_down x = (if 0 < x \<and> x < 1 then Suc (log2_down (x * 2)) else 0)"
  by pat_completeness auto
termination
proof (relation "measure (\<lambda>x. nat \<lfloor>1 / x\<rfloor>)")
  show "wf (measure (\<lambda>x::rat. nat \<lfloor>1 / x\<rfloor>))" by simp
next
  fix x :: rat
  assume x: "0 < x \<and> x < 1"
  then have big: "1 \<le> 1 / x" by simp
  then have one: "1 \<le> \<lfloor>1 / x\<rfloor>" by (simp add: le_floor_iff)
  define y where "y = 1 / x"
  have "y < of_int \<lfloor>y\<rfloor> + 1" using floor_correct [of y] by simp
  moreover have "(1::rat) \<le> of_int \<lfloor>y\<rfloor>" using one unfolding y_def by simp
  ultimately have "y / 2 < of_int \<lfloor>y\<rfloor>" by linarith
  then have "\<lfloor>y / 2\<rfloor> < \<lfloor>y\<rfloor>" by (simp only: floor_less_iff)
  moreover have "1 / (x * 2) = y / 2" unfolding y_def by simp
  ultimately have "\<lfloor>1 / (x * 2)\<rfloor> < \<lfloor>1 / x\<rfloor>" unfolding y_def by (simp only:)
  then have "nat \<lfloor>1 / (x * 2)\<rfloor> < nat \<lfloor>1 / x\<rfloor>" using one by linarith
  then show "(x * 2, x) \<in> measure (\<lambda>x. nat \<lfloor>1 / x\<rfloor>)"
    by (simp only: in_measure)
qed

declare log2_up.simps [simp del] log2_down.simps [simp del]

definition exponent :: "rat \<Rightarrow> int" where
  "exponent x = (if 1 \<le> x then int (log2_up x) else - int (log2_down x))"

definition pow2 :: "int \<Rightarrow> rat" where
  "pow2 e = (if 0 \<le> e then 2 ^ nat e else 1 / 2 ^ nat (- e))"

definition roundHalfEven :: "rat \<Rightarrow> int" where
  "roundHalfEven y =
     (let f = \<lfloor>y\<rfloor>; d = y - of_int f
      in if d < 1 / 2 then f else if 1 / 2 < d then f + 1 else if even f then f else f + 1)"

text \<open>
  The double nearest to a rational, ties to the even significand: the spacing of the doubles
  around \<open>x\<close> is \<open>2^(e-52)\<close>, and \<open>2^-1074\<close> below \<open>2^-1022\<close>; from \<open>2^1024\<close> on the result is
  an infinity.  Every arithmetic operation of the source returns the exact result rounded
  so.
\<close>

definition toDoublePos :: "rat \<Rightarrow> number" where
  "toDoublePos x =
     (let q = pow2 (max (exponent x) (- 1022) - 52);
          y = of_int (roundHalfEven (x / q)) * q
      in if 2 ^ 1024 \<le> y then PosInfinity else Val y)"

definition toDouble :: "rat \<Rightarrow> number" where
  "toDouble x =
     (if x = 0 then Val 0
      else if 0 < x then toDoublePos x
      else (case toDoublePos (- x) of Val y \<Rightarrow> Val (- y) | _ \<Rightarrow> NegInfinity))"

text \<open>The operators \<open>/\<close> and \<open>*\<close> on numbers.\<close>

fun num_div :: "number \<Rightarrow> number \<Rightarrow> number" where
  "num_div (Val x) (Val y) =
     (if y = 0 then (if x = 0 then NaN else if 0 < x then PosInfinity else NegInfinity)
      else toDouble (x / y))"
| "num_div (Val x) PosInfinity = Val 0"
| "num_div (Val x) NegInfinity = Val 0"
| "num_div PosInfinity (Val y) = (if y < 0 then NegInfinity else PosInfinity)"
| "num_div NegInfinity (Val y) = (if y < 0 then PosInfinity else NegInfinity)"
| "num_div a b = NaN"

fun num_mul :: "number \<Rightarrow> number \<Rightarrow> number" where
  "num_mul (Val x) (Val y) = toDouble (x * y)"
| "num_mul (Val x) PosInfinity =
     (if x = 0 then NaN else if 0 < x then PosInfinity else NegInfinity)"
| "num_mul (Val x) NegInfinity =
     (if x = 0 then NaN else if 0 < x then NegInfinity else PosInfinity)"
| "num_mul PosInfinity (Val y) =
     (if y = 0 then NaN else if 0 < y then PosInfinity else NegInfinity)"
| "num_mul NegInfinity (Val y) =
     (if y = 0 then NaN else if 0 < y then NegInfinity else PosInfinity)"
| "num_mul PosInfinity PosInfinity = PosInfinity"
| "num_mul PosInfinity NegInfinity = NegInfinity"
| "num_mul NegInfinity PosInfinity = NegInfinity"
| "num_mul NegInfinity NegInfinity = PosInfinity"
| "num_mul a b = NaN"

text \<open>\<open>Math.floor\<close>, and \<open>Math.min\<close> of an integer and a result of \<open>Math.floor\<close>.\<close>

fun Math_floor :: "number \<Rightarrow> int js" where
  "Math_floor (Val x) = Val \<lfloor>x\<rfloor>"
| "Math_floor PosInfinity = PosInfinity"
| "Math_floor NegInfinity = NegInfinity"
| "Math_floor NaN = NaN"

fun Math_min :: "int \<Rightarrow> int js \<Rightarrow> int js" where
  "Math_min a (Val b) = Val (min a b)"
| "Math_min a PosInfinity = Val a"
| "Math_min a NegInfinity = NegInfinity"
| "Math_min a NaN = NaN"

subsection \<open>computeFit\<close>

text \<open>
  \<open>clampInt\<close> is called with integer bounds.  On an integer it returns an integer; on a
  result of \<open>Math.min\<close> both comparisons are false for \<open>NaN\<close>, which is then returned, so
  the result is an integer between the bounds or \<open>NaN\<close> (\<open>None\<close>).
\<close>

definition clampInt :: "int \<Rightarrow> int \<Rightarrow> int \<Rightarrow> int" where
  "clampInt n lo hi = (if n < lo then lo else (if n > hi then hi else n))"

fun clampInt_js :: "int js \<Rightarrow> int \<Rightarrow> int \<Rightarrow> int option" where
  "clampInt_js (Val n) lo hi = Some (clampInt n lo hi)"
| "clampInt_js PosInfinity lo hi = Some hi"
| "clampInt_js NegInfinity lo hi = Some lo"
| "clampInt_js NaN lo hi = None"

text \<open>\<open>n | 0\<close> on an integer: the low 32 bits, read as two's complement.\<close>

definition toInt32 :: "int \<Rightarrow> int" where
  "toInt32 n = (n + 2 ^ 31) mod 2 ^ 32 - 2 ^ 31"

text \<open>
  The object that \<open>computeFit\<close> returns.  \<open>dstW\<close> and \<open>dstH\<close> are integers; the other four
  fields are integers or \<open>NaN\<close> (\<open>None\<close>).
\<close>

record fit =
  dstW :: int
  dstH :: int
  outW :: "int option"
  outH :: "int option"
  padX :: "int option"
  padY :: "int option"

text \<open>\<open>(CFG.baseH / CFG.baseW) / CFG.charAspect\<close>, the fields read as doubles.\<close>

definition targetHOverW :: "config \<Rightarrow> number" where
  "targetHOverW cfg =
     num_div (num_div (toDouble (of_nat (baseH cfg))) (toDouble (of_nat (baseW cfg))))
       (toDouble (charAspect cfg))"

text \<open>
  \<open>dstH\<close> and \<open>outW\<close> are integers of at most 10000 and enter the division and the product
  as they are.  \<open>(dstW - outW) / 2\<close> is a multiple of one half, so its floor is the integer
  quotient.
\<close>

definition computeFit :: "config \<Rightarrow> int \<Rightarrow> int \<Rightarrow> fit" where
  "computeFit cfg c r =
     (let dstW = clampInt (toInt32 c) 1 10000;
          dstH = clampInt (toInt32 r - 1) 1 10000;
          maxWByH = Math_floor (num_div (Val (of_int dstH)) (targetHOverW cfg));
          outW = clampInt_js (Math_min dstW maxWByH) 1 dstW;
          outH = clampInt_js
                   (Math_min dstH
                      (Math_floor
                         (num_mul (case outW of None \<Rightarrow> NaN | Some ow \<Rightarrow> Val (of_int ow))
                            (targetHOverW cfg))))
                   1 dstH;
          padX = map_option (\<lambda>ow. (dstW - ow) div 2) outW;
          padY = map_option (\<lambda>oh. (dstH - oh) div 2) outH
      in \<lparr>dstW = dstW, dstH = dstH, outW = outW, outH = outH, padX = padX, padY = padY\<rparr>)"

subsection \<open>The grayscale ramp\<close>

text \<open>
  \<open>lutIndex\<close> is the index \<open>Math.floor((v * (CFG.chars.length - 1)) / 255)\<close>; the operands
  are small integers, so the floor of the double quotient is the integer quotient.  \<open>LUT\<close>
  is the table of 256 entries: \<open>undefined\<close> outside \<open>0..255\<close>.
\<close>

definition lutIndex :: "config \<Rightarrow> nat \<Rightarrow> nat" where
  "lutIndex cfg v = (v * (length (chars cfg) - 1)) div 255"

definition LUT :: "config \<Rightarrow> nat \<Rightarrow> char option" where
  "LUT cfg v = (if v < 256 then elemAt (chars cfg) (lutIndex cfg v) else None)"

subsection \<open>Strings of numbers\<close>

text \<open>What a template literal or \<open>+=\<close> appends for a number or for \<open>undefined\<close>.\<close>

fun decimal :: "nat \<Rightarrow> string" where
  "decimal n =
     (if n < 10 then [char_of (48 + n)] else decimal (n div 10) @ [char_of (48 + n mod 10)])"

declare decimal.simps [simp del]

definition numberToString :: "int \<Rightarrow> string" where
  "numberToString n = (if n < 0 then CHR ''-'' # decimal (nat (- n)) else decimal (nat n))"

definition toStr :: "int option \<Rightarrow> string" where
  "toStr v = (case v of None \<Rightarrow> ''undefined'' | Some n \<Rightarrow> numberToString n)"

definition repeat_space :: "int \<Rightarrow> string" where
  "repeat_space n = replicate (nat n) CHR '' ''"

subsection \<open>renderAscii\<close>

text \<open>
  The values of the counter in \<open>for (let i = 0; i < n; i++)\<close>, and \<open>a - b - c\<close>, where \<open>n\<close>,
  \<open>b\<close> and \<open>c\<close> are integers or \<open>NaN\<close>: the loop does not run for \<open>NaN\<close>, and a
  difference with \<open>NaN\<close> is \<open>NaN\<close>.
\<close>

definition counter :: "int option \<Rightarrow> nat list" where
  "counter n = (case n of None \<Rightarrow> [] | Some k \<Rightarrow> [0 ..< nat k])"

definition minus2 :: "int \<Rightarrow> int option \<Rightarrow> int option \<Rightarrow> int option" where
  "minus2 a b c = (case (b, c) of (Some x, Some y) \<Rightarrow> Some (a - x - y) | _ \<Rightarrow> None)"

text \<open>The body of the inner loop: the character for output column \<open>ox\<close>, appended to the line.\<close>

definition asciiCell :: "config \<Rightarrow> byte list \<Rightarrow> nat \<Rightarrow> int \<Rightarrow> string \<Rightarrow> nat \<Rightarrow> string" where
  "asciiCell cfg grayFrame srcRow w line ox =
     (let sx = (ox * baseW cfg) div nat w in
      line @ (case elemAt grayFrame (srcRow + sx) of
                None \<Rightarrow> ''undefined''
              | Some v \<Rightarrow> (case LUT cfg (unat v) of None \<Rightarrow> ''undefined'' | Some c \<Rightarrow> [c])))"

text \<open>
  The body of the loop over output rows: one line, appended to \<open>out\<close>.  The loop runs
  only when \<open>outH\<close> is a number, \<open>oh\<close>, and the inner loop only when \<open>outW\<close> is one; \<open>NaN\<close>
  is falsy and not greater than 0.
\<close>

definition asciiLine :: "config \<Rightarrow> byte list \<Rightarrow> fit \<Rightarrow> int \<Rightarrow> string \<Rightarrow> nat \<Rightarrow> string" where
  "asciiLine cfg grayFrame f oh out oy =
     (let sy = (oy * baseH cfg) div nat oh;
          srcRow = sy * baseW cfg;
          line0 = (case padX f of
                     None \<Rightarrow> []
                   | Some px \<Rightarrow> if px \<noteq> 0 then repeat_space px else []);
          line1 = (case outW f of
                     None \<Rightarrow> line0
                   | Some ow \<Rightarrow> foldl (asciiCell cfg grayFrame srcRow ow) line0 [0 ..< nat ow]);
          rightPad = minus2 (dstW f) (padX f) (outW f);
          line2 = (case rightPad of
                     None \<Rightarrow> line1
                   | Some rp \<Rightarrow> if rp > 0 then line1 @ repeat_space rp else line1)
      in out @ line2 @ [NL])"

definition renderAscii :: "config \<Rightarrow> byte list \<Rightarrow> int \<Rightarrow> int \<Rightarrow> string" where
  "renderAscii cfg grayFrame c r =
     (let f = computeFit cfg c r;
          blank = repeat_space (dstW f) @ [NL];
          out0 = ESC # ''[H'';
          out1 = foldl (\<lambda>out y. out @ blank) out0 (counter (padY f));
          out2 = (case outH f of
                    None \<Rightarrow> out1
                  | Some oh \<Rightarrow> foldl (asciiLine cfg grayFrame f oh) out1 [0 ..< nat oh]);
          bottom = minus2 (dstH f) (padY f) (outH f)
      in foldl (\<lambda>out y. out @ blank) out2 (counter bottom))"

subsection \<open>renderTruecolor\<close>

text \<open>
  The inner loop carries the line and the colour last written, \<open>(curR, curG, curB)\<close>; a
  component is a number or \<open>undefined\<close> (a read beyond the frame).
\<close>

type_synonym colour = "int option \<times> int option \<times> int option"

definition colourCell :: "config \<Rightarrow> byte list \<Rightarrow> nat \<Rightarrow> int \<Rightarrow> string \<times> colour \<Rightarrow> nat \<Rightarrow> string \<times> colour" where
  "colourCell cfg rgbFrame sy w st ox =
     (let line = fst st; cur = snd st;
          sx = (ox * baseW cfg) div nat w;
          i = (sy * baseW cfg + sx) * 3;
          r = map_option uint (elemAt rgbFrame i);
          g = map_option uint (elemAt rgbFrame (i + 1));
          b = map_option uint (elemAt rgbFrame (i + 2))
      in if r \<noteq> fst cur \<or> g \<noteq> fst (snd cur) \<or> b \<noteq> snd (snd cur)
         then (line @ ESC # ''[48;2;'' @ toStr r @ '';'' @ toStr g @ '';'' @ toStr b @ ''m'' @ '' '',
               (r, g, b))
         else (line @ '' '', cur))"

definition colourLine :: "config \<Rightarrow> byte list \<Rightarrow> fit \<Rightarrow> int \<Rightarrow> string \<Rightarrow> nat \<Rightarrow> string" where
  "colourLine cfg rgbFrame f oh out oy =
     (let sy = (oy * baseH cfg) div nat oh;
          line0 = (case padX f of
                     None \<Rightarrow> []
                   | Some px \<Rightarrow> if px \<noteq> 0 then repeat_space px else []);
          line1 = (case outW f of
                     None \<Rightarrow> line0
                   | Some ow \<Rightarrow>
                       fst (foldl (colourCell cfg rgbFrame sy ow)
                              (line0, (Some (- 1), Some (- 1), Some (- 1))) [0 ..< nat ow]));
          line2 = line1 @ ESC # ''[0m'';
          rightPad = minus2 (dstW f) (padX f) (outW f);
          line3 = (case rightPad of
                     None \<Rightarrow> line2
                   | Some rp \<Rightarrow> if rp > 0 then line2 @ repeat_space rp else line2)
      in out @ line3 @ [NL])"

definition renderTruecolor :: "config \<Rightarrow> byte list \<Rightarrow> int \<Rightarrow> int \<Rightarrow> string" where
  "renderTruecolor cfg rgbFrame c r =
     (let f = computeFit cfg c r;
          blank = repeat_space (dstW f) @ [NL];
          out0 = ESC # ''[H'';
          out1 = foldl (\<lambda>out y. out @ blank) out0 (counter (padY f));
          out2 = (case outH f of
                    None \<Rightarrow> out1
                  | Some oh \<Rightarrow> foldl (colourLine cfg rgbFrame f oh) out1 [0 ..< nat oh]);
          bottom = minus2 (dstH f) (padY f) (outH f)
      in foldl (\<lambda>out y. out @ blank) out2 (counter bottom))"

subsection \<open>rgbToGray and renderFrameForClient\<close>

text \<open>
  \<open>(54 * r + 183 * g + 19 * b) >> 8\<close>; with a component \<open>undefined\<close> the sum is \<open>NaN\<close> and
  the shift gives 0.
\<close>

definition luma :: "byte list \<Rightarrow> nat \<Rightarrow> byte" where
  "luma rgbFrame j =
     (case (elemAt rgbFrame j, elemAt rgbFrame (j + 1), elemAt rgbFrame (j + 2)) of
        (Some r, Some g, Some b) \<Rightarrow> of_nat ((54 * unat r + 183 * unat g + 19 * unat b) div 256)
      | _ \<Rightarrow> 0)"

definition rgbToGray :: "config \<Rightarrow> byte list \<Rightarrow> byte list" where
  "rgbToGray cfg rgbFrame = map (\<lambda>i. luma rgbFrame (3 * i)) [0 ..< baseW cfg * baseH cfg]"

definition renderFrameForClient :: "config \<Rightarrow> byte list \<Rightarrow> int \<Rightarrow> int \<Rightarrow> nat \<Rightarrow> string" where
  "renderFrameForClient cfg rgbFrame c r m =
     (if m = 2 then renderTruecolor cfg rgbFrame c r
      else renderAscii cfg (rgbToGray cfg rgbFrame) c r)"

text \<open>The number of line terminators in a rendered block.\<close>

definition countNL :: "string \<Rightarrow> nat" where
  "countNL out = length (filter (\<lambda>c. c = NL) out)"

text \<open>The block is not empty and its last character is the line terminator.\<close>

definition endsNL :: "string \<Rightarrow> bool" where
  "endsNL out \<longleftrightarrow> out \<noteq> [] \<and> last out = NL"


subsection \<open>Text of an input chunk\<close>

text \<open>
  \<open>Buffer.from(filtered).toString("utf8")\<close> is Node's decoder, which follows the UTF-8
  decoder of the Encoding standard: an ill-formed sequence becomes U+FFFD and the byte that
  ended it is read again.  \<open>utf8_lead\<close> is the step taken when no sequence is open: the code
  points written and the next state.
\<close>

record utf8_state =
  codePoint :: nat
  bytesNeeded :: nat
  bytesSeen :: nat
  lowerBound :: nat
  upperBound :: nat

definition utf8_init :: utf8_state where
  "utf8_init = \<lparr>codePoint = 0, bytesNeeded = 0, bytesSeen = 0, lowerBound = 0x80,
     upperBound = 0xBF\<rparr>"

definition utf8_lead :: "nat \<Rightarrow> nat list \<times> utf8_state" where
  "utf8_lead b =
     (if b \<le> 0x7F then ([b], utf8_init)
      else if 0xC2 \<le> b \<and> b \<le> 0xDF then
        ([], utf8_init\<lparr>bytesNeeded := 1, codePoint := b mod 32\<rparr>)
      else if 0xE0 \<le> b \<and> b \<le> 0xEF then
        ([], utf8_init\<lparr>lowerBound := (if b = 0xE0 then 0xA0 else 0x80),
               upperBound := (if b = 0xED then 0x9F else 0xBF),
               bytesNeeded := 2, codePoint := b mod 16\<rparr>)
      else if 0xF0 \<le> b \<and> b \<le> 0xF4 then
        ([], utf8_init\<lparr>lowerBound := (if b = 0xF0 then 0x90 else 0x80),
               upperBound := (if b = 0xF4 then 0x8F else 0xBF),
               bytesNeeded := 3, codePoint := b mod 8\<rparr>)
      else ([0xFFFD], utf8_init))"

fun utf8_decode :: "utf8_state \<Rightarrow> nat list \<Rightarrow> nat list" where
  "utf8_decode st [] = (if bytesNeeded st \<noteq> 0 then [0xFFFD] else [])"
| "utf8_decode st (b # bs) =
     (if bytesNeeded st = 0 then
        (case utf8_lead b of (out, st') \<Rightarrow> out @ utf8_decode st' bs)
      else if b < lowerBound st \<or> upperBound st < b then
        (case utf8_lead b of (out, st') \<Rightarrow> 0xFFFD # out @ utf8_decode st' bs)
      else
        (let cp = codePoint st * 64 + b mod 64 in
         if bytesSeen st + 1 = bytesNeeded st then cp # utf8_decode utf8_init bs
         else utf8_decode (st\<lparr>lowerBound := 0x80, upperBound := 0xBF, codePoint := cp,
                               bytesSeen := bytesSeen st + 1\<rparr>) bs))"

text \<open>
  What holds of the decoder's state between two bytes: no sequence is open, or the bytes
  still to come will bring the code point to 128 or more.
\<close>

definition utf8_inv :: "utf8_state \<Rightarrow> bool" where
  "utf8_inv st \<longleftrightarrow>
     bytesNeeded st = 0
     \<or> (bytesSeen st < bytesNeeded st \<and> 0x80 \<le> lowerBound st \<and> upperBound st \<le> 0xBF
        \<and> (2 \<le> codePoint st
           \<or> (codePoint st = 1 \<and> bytesSeen st + 2 \<le> bytesNeeded st)
           \<or> (bytesSeen st + 2 \<le> bytesNeeded st \<and> 0x90 \<le> lowerBound st)))"

text \<open>A JavaScript string is a sequence of UTF-16 code units.\<close>

type_synonym jsstring = "nat list"

definition utf16 :: "nat \<Rightarrow> jsstring" where
  "utf16 cp =
     (if cp < 0x10000 then [cp]
      else [0xD800 + (cp - 0x10000) div 0x400, 0xDC00 + (cp - 0x10000) mod 0x400])"

definition toString_utf8 :: "byte list \<Rightarrow> jsstring" where
  "toString_utf8 buf = concat (map utf16 (utf8_decode utf8_init (map unat buf)))"

text \<open>A string literal of the source, all of whose characters are ASCII.\<close>

definition lit :: "string \<Rightarrow> jsstring" where
  "lit s = map of_char s"

text \<open>\<open>text.includes(k)\<close>: \<open>k\<close> occurs in \<open>text\<close> as a substring.\<close>

fun js_includes :: "jsstring \<Rightarrow> jsstring \<Rightarrow> bool" where
  "js_includes [] k = (k = [])"
| "js_includes (u # us) k = (take (length k) (u # us) = k \<or> js_includes us k)"

definition textFromTelnet :: "byte list \<Rightarrow> jsstring" where
  "textFromTelnet data = toString_utf8 (filter (\<lambda>b. b \<noteq> TELNET_IAC) data)"

text \<open>The loop of \<open>shouldQuit\<close> over \<open>CFG.quitKeys\<close>.\<close>

fun anyKeyIn :: "jsstring \<Rightarrow> string list \<Rightarrow> bool" where
  "anyKeyIn tx [] = False"
| "anyKeyIn tx (k # ks) = (if js_includes tx (lit k) then True else anyKeyIn tx ks)"

definition shouldQuit :: "config \<Rightarrow> byte list \<Rightarrow> bool" where
  "shouldQuit cfg data = anyKeyIn (textFromTelnet data) (quitKeys cfg)"

subsection \<open>The data handler of a client socket\<close>

text \<open>
  \<open>sock.write\<close> and \<open>sock.end\<close>, as far as the program observes them: the data handed over
  and the fact that the stream was ended.  \<open>writableLength\<close> belongs to the runtime, which
  lowers it as data is flushed; the program only reads it.
\<close>

definition sock_write :: "sock \<Rightarrow> string \<Rightarrow> sock" where
  "sock_write s d = s\<lparr>written := written s @ [d]\<rparr>"

definition sock_end :: "sock \<Rightarrow> sock" where
  "sock_end s = s\<lparr>ended := True\<rparr>"

definition toggleMode :: "sock \<Rightarrow> sock" where
  "toggleMode s = s\<lparr>mode := Some (if mode s = Some 2 then 1 else 2)\<rparr>"

definition onData :: "config \<Rightarrow> sock \<Rightarrow> byte list \<Rightarrow> sock" where
  "onData cfg s0 data =
     (let s1 = parseNAWS s0 data;
          tx = textFromTelnet data;
          s2 = (if js_includes tx (lit ''m'') \<or> js_includes tx (lit ''M'')
                then toggleMode s1 else s1)
      in if shouldQuit cfg data
         then sock_end (if \<not> destroyed s2 then sock_write s2 (ESC # ''[?25h'' @ [NL]) else s2)
         else s2)"

text \<open>The number of \<open>m\<close> and \<open>M\<close> characters of a text.\<close>

definition countToggleKeys :: "jsstring \<Rightarrow> nat" where
  "countToggleKeys tx = length (filter (\<lambda>u. u = 0x6D \<or> u = 0x4D) tx)"


subsection \<open>The server's state\<close>

text \<open>
  The module-level variables: the set \<open>clients\<close> (a list without repetition, in insertion
  order, of references to sockets), the socket objects themselves (\<open>heap\<close>), the playlist
  cursor, the decoder handle \<open>ff\<close>, the carry-over buffer \<open>leftover\<close> and the two flags.
  \<open>started\<close> lists the arguments of the calls of \<open>startFfmpeg\<close>, oldest first, and a decoder
  handle is the position of its call in that list.
\<close>

record server =
  clients :: "nat list"
  heap :: "nat \<Rightarrow> sock"
  currentIndex :: nat
  ff :: "nat option"
  leftover :: "byte list"
  shuttingDown :: bool
  switching :: bool
  started :: "string list"

definition initial :: server where
  "initial = \<lparr>clients = [], heap = (\<lambda>c. newSock), currentIndex = 0, ff = None,
     leftover = [], shuttingDown = False, switching = False, started = []\<rparr>"

definition bytesPerFrame :: "config \<Rightarrow> nat" where
  "bytesPerFrame cfg = baseW cfg * baseH cfg * 3"

subsection \<open>The frame loop of the decoder's output\<close>

text \<open>
  The \<open>while\<close> loop of the \<open>stdout\<close> handler: cut one frame from the front, run the code of
  the loop body on it (\<open>act\<close>), go on with the rest.  With a frame size of 0 the loop never
  ends, so the result is an option and \<open>None\<close> stands for no return.
\<close>

partial_function (option) frame_loop ::
    "(byte list \<Rightarrow> 's \<Rightarrow> 's) \<Rightarrow> nat \<Rightarrow> 's \<Rightarrow> byte list \<Rightarrow> ('s \<times> byte list) option" where
  "frame_loop act bpf st data =
     (if length data \<ge> bpf
      then frame_loop act bpf (act (take bpf data) st) (drop bpf data)
      else Some (st, data))"

declare frame_loop.simps [code]

text \<open>
  One \<open>data\<close> event: the state the loop body works on and the carry-over, before and after.
\<close>

definition onChunk ::
    "(byte list \<Rightarrow> 's \<Rightarrow> 's) \<Rightarrow> nat \<Rightarrow> 's \<times> byte list \<Rightarrow> byte list \<Rightarrow> ('s \<times> byte list) option" where
  "onChunk act bpf sl chunk =
     (let data = (if snd sl \<noteq> [] then snd sl @ chunk else chunk)
      in frame_loop act bpf (fst sl) data)"

text \<open>A sequence of \<open>data\<close> events, one per chunk.\<close>

fun feed ::
    "(byte list \<Rightarrow> 's \<Rightarrow> 's) \<Rightarrow> nat \<Rightarrow> 's \<times> byte list \<Rightarrow> byte list list \<Rightarrow> ('s \<times> byte list) option" where
  "feed act bpf sl [] = Some sl"
| "feed act bpf sl (chunk # chunks) =
     (case onChunk act bpf sl chunk of None \<Rightarrow> None | Some sl' \<Rightarrow> feed act bpf sl' chunks)"

text \<open>A loop body that only records the frame it is given.\<close>

definition yield :: "byte list \<Rightarrow> byte list list \<Rightarrow> byte list list" where
  "yield frame frames = frames @ [frame]"

subsection \<open>The broadcast pass\<close>

text \<open>\<open>!v\<close> for a property that is a number or \<open>undefined\<close>.\<close>

definition falsy :: "nat option \<Rightarrow> bool" where
  "falsy v \<longleftrightarrow> v = None \<or> v = Some 0"

definition sock_destroy :: "sock \<Rightarrow> sock" where
  "sock_destroy s = s\<lparr>destroyed := True\<rparr>"

text \<open>The \<open>catch\<close> block: destroy the socket and delete it from \<open>clients\<close>.\<close>

definition evict :: "server \<Rightarrow> nat \<Rightarrow> sock \<Rightarrow> server" where
  "evict st c s = st\<lparr>heap := (heap st)(c := sock_destroy s), clients := removeAll c (clients st)\<rparr>"

text \<open>
  The \<open>try\<close> block of the pass.  Its two calls are parameters, so that every way in which
  they can throw is covered: \<open>rnd\<close> stands for \<open>renderFrameForClient\<close> and returns the
  block or the error thrown, \<open>wr\<close> stands for \<open>c.write\<close> and returns the socket after the
  call, or the error and the socket as it was when the error was thrown.
\<close>

definition tryBlock ::
    "(byte list \<Rightarrow> int \<Rightarrow> int \<Rightarrow> nat \<Rightarrow> js_error + string) \<Rightarrow>
     (sock \<Rightarrow> string \<Rightarrow> (js_error \<times> sock) + sock) \<Rightarrow>
     byte list \<Rightarrow> sock \<Rightarrow> (js_error \<times> sock) + sock" where
  "tryBlock rnd wr frame s =
     (case rnd frame (int (the (cols s))) (int (the (rows s)))
             (case mode s of None \<Rightarrow> MODE_DEFAULT | Some m \<Rightarrow> m) of
        Inl e \<Rightarrow> Inl (e, s)
      | Inr rendered \<Rightarrow> wr s rendered)"

text \<open>The body of \<open>for (const c of clients)\<close>, for the socket with reference \<open>c\<close>.\<close>

definition broadcastTo ::
    "(byte list \<Rightarrow> int \<Rightarrow> int \<Rightarrow> nat \<Rightarrow> js_error + string) \<Rightarrow>
     (sock \<Rightarrow> string \<Rightarrow> (js_error \<times> sock) + sock) \<Rightarrow>
     config \<Rightarrow> byte list \<Rightarrow> server \<Rightarrow> nat \<Rightarrow> server" where
  "broadcastTo rnd wr cfg frame st c =
     (let s = heap st c in
      if destroyed s then st
      else if falsy (cols s) \<or> falsy (rows s) then st
      else if writableLength s > dropIfBufferedOver cfg then st
      else
        (case tryBlock rnd wr frame s of
           Inl (e, s') \<Rightarrow> evict st c s'
         | Inr s' \<Rightarrow> st\<lparr>heap := (heap st)(c := s')\<rparr>))"

text \<open>The pass over the set as it is when the pass begins.\<close>

definition broadcast ::
    "(byte list \<Rightarrow> int \<Rightarrow> int \<Rightarrow> nat \<Rightarrow> js_error + string) \<Rightarrow>
     (sock \<Rightarrow> string \<Rightarrow> (js_error \<times> sock) + sock) \<Rightarrow>
     config \<Rightarrow> byte list \<Rightarrow> server \<Rightarrow> server" where
  "broadcast rnd wr cfg frame st =
     foldl (broadcastTo rnd wr cfg frame) st (clients st)"

text \<open>The two calls when nothing throws.\<close>

definition renderOk :: "config \<Rightarrow> byte list \<Rightarrow> int \<Rightarrow> int \<Rightarrow> nat \<Rightarrow> js_error + string" where
  "renderOk cfg frame c r m = Inr (renderFrameForClient cfg frame c r m)"

definition writeOk :: "sock \<Rightarrow> string \<Rightarrow> (js_error \<times> sock) + sock" where
  "writeOk s d = Inr (sock_write s d)"

text \<open>The handler of \<open>ff.stdout.on("data")\<close>.\<close>

definition onStdoutData ::
    "(byte list \<Rightarrow> int \<Rightarrow> int \<Rightarrow> nat \<Rightarrow> js_error + string) \<Rightarrow>
     (sock \<Rightarrow> string \<Rightarrow> (js_error \<times> sock) + sock) \<Rightarrow>
     config \<Rightarrow> server \<Rightarrow> byte list \<Rightarrow> server option" where
  "onStdoutData rnd wr cfg st chunk =
     (case onChunk (broadcast rnd wr cfg) (bytesPerFrame cfg) (st, leftover st) chunk of
        None \<Rightarrow> None
      | Some (st', rest) \<Rightarrow> Some (st'\<lparr>leftover := rest\<rparr>))"

subsection \<open>The decoder's life cycle\<close>

text \<open>
  \<open>playNext\<close> for the playlist \<open>pl\<close>.  \<open>startFfmpeg\<close> throws a TypeError for a path that is
  \<open>undefined\<close>; the cursor is advanced before the call.
\<close>

definition playNext :: "string list \<Rightarrow> server \<Rightarrow> (js_error \<times> server) + server" where
  "playNext pl st =
     (let video = elemAt pl (currentIndex st);
          st1 = st\<lparr>currentIndex := (currentIndex st + 1) mod length pl\<rparr>
      in case video of
           None \<Rightarrow> Inl (TypeError, st1)
         | Some v \<Rightarrow> Inr (st1\<lparr>ff := Some (length (started st1)), started := started st1 @ [v]\<rparr>))"

text \<open>The handler of \<open>ff.on("close")\<close>; \<open>finally\<close> resets \<open>switching\<close> on both ways out.\<close>

definition onClose :: "string list \<Rightarrow> server \<Rightarrow> (js_error \<times> server) + server" where
  "onClose pl st =
     (let st1 = st\<lparr>leftover := []\<rparr> in
      if shuttingDown st1 then Inr st1
      else if switching st1 then Inr st1
      else
        (case playNext pl (st1\<lparr>switching := True\<rparr>) of
           Inl (e, st2) \<Rightarrow> Inl (e, st2\<lparr>switching := False\<rparr>)
         | Inr st2 \<Rightarrow> Inr (st2\<lparr>switching := False\<rparr>)))"

subsection \<open>A server with four clients\<close>

text \<open>
  Client 0 is destroyed; clients 1, 2 and 3 have reported an 80 by 24 window; client 2 has
  been ended.  \<open>writeEnded\<close> is a \<open>write\<close> that throws on an ended socket, and \<open>renderX\<close> a
  renderer that returns a one-character block.
\<close>

definition fourClients :: server where
  "fourClients = initial\<lparr>clients := [0, 1, 2, 3],
     heap := (\<lambda>c. if c = 0 then newSock\<lparr>destroyed := True\<rparr>
                  else if c = 2 then newSock\<lparr>cols := Some 80, rows := Some 24, ended := True\<rparr>
                  else newSock\<lparr>cols := Some 80, rows := Some 24\<rparr>)\<rparr>"

definition writeEnded :: "sock \<Rightarrow> string \<Rightarrow> (js_error \<times> sock) + sock" where
  "writeEnded s d = (if ended s then Inl (TypeError, s) else writeOk s d)"

definition renderX :: "byte list \<Rightarrow> int \<Rightarrow> int \<Rightarrow> nat \<Rightarrow> js_error + string" where
  "renderX frame c r m = Inr ''x''"


section \<open>Window-size negotiation\<close>

lemmas TELNET_defs = TELNET_IAC_def TELNET_DO_def TELNET_SB_def TELNET_SE_def TELNET_NAWS_def

lemma parseNAWS_loop_done: "\<not> i + 8 < length data \<Longrightarrow> parseNAWS_loop data i s = Inr s"
  by (simp add: parseNAWS_loop.simps)

lemma parseNAWS_loop_returns: "\<exists>s'. parseNAWS_loop data i s = Inr s'"
proof (induction data i s rule: parseNAWS_loop.induct)
  case (1 data i s)
  show ?case
  proof (cases "i + 8 < length data")
    case False
    then show ?thesis by (simp add: parseNAWS_loop_done)
  next
    case True
    then have r3: "readUInt16BE data (i + 3)
        = Inr (unat (data ! (i + 3)) * 256 + unat (data ! (i + 4)))"
      and r5: "readUInt16BE data (i + 5)
        = Inr (unat (data ! (i + 5)) * 256 + unat (data ! (i + 6)))"
      by (simp_all add: readUInt16BE_def numeral_eq_Suc)
    show ?thesis
      using True "1.IH"(1) "1.IH"(2) [OF True _ _ r3 r5] "1.IH"(3)
      by (subst parseNAWS_loop.simps) (auto simp: r3 r5)
  qed
qed

lemma parseNAWS_loop_unchanged:
  "\<forall>j. i \<le> j \<longrightarrow> nawsAt data j \<longrightarrow> nawsW data j = 0 \<or> nawsH data j = 0
   \<Longrightarrow> parseNAWS_loop data i s = Inr s"
proof (induction data i s rule: parseNAWS_loop.induct)
  case (1 data i s)
  show ?case
  proof (cases "i + 8 < length data")
    case False
    then show ?thesis by (simp add: parseNAWS_loop_done)
  next
    case True
    then have r3: "readUInt16BE data (i + 3) = Inr (nawsW data i)"
      and r5: "readUInt16BE data (i + 5) = Inr (nawsH data i)"
      by (simp_all add: readUInt16BE_def nawsW_def nawsH_def numeral_eq_Suc)
    have later: "\<forall>j. i + 1 \<le> j \<longrightarrow> nawsAt data j \<longrightarrow> nawsW data j = 0 \<or> nawsH data j = 0"
      using "1.prems" by simp
    have here: "nawsAt data i \<longrightarrow> nawsW data i = 0 \<or> nawsH data i = 0"
      using "1.prems" by simp
    show ?thesis
    proof (cases "nawsAt data i")
      case False
      then have "parseNAWS_loop data i s = parseNAWS_loop data (i + 1) s"
        using True by (subst parseNAWS_loop.simps) (auto simp: nawsAt_def elemAt_def r3 r5)
      moreover have "parseNAWS_loop data (i + 1) s = Inr s"
        using False True "1.IH"(1) "1.IH"(3) later
        by (cases "elemAt data i = Some TELNET_IAC \<and> elemAt data (i + 1) = Some TELNET_SB
              \<and> elemAt data (i + 2) = Some TELNET_NAWS") (auto simp: nawsAt_def elemAt_def)
      ultimately show ?thesis by simp
    next
      case yes: True
      then have zero: "\<not> (nawsW data i > 0 \<and> nawsH data i > 0)"
        using here by auto
      have "parseNAWS_loop data i s = parseNAWS_loop data (i + 1) s"
        using True yes zero
        by (subst parseNAWS_loop.simps) (auto simp: nawsAt_def elemAt_def r3 r5)
      moreover have "parseNAWS_loop data (i + 1) s = Inr s"
        using "1.IH"(2) [OF True _ _ r3 r5] yes zero True later
        by (auto simp: nawsAt_def elemAt_def)
      ultimately show ?thesis by simp
    qed
  qed
qed

lemma parseNAWS_try_returns: "\<exists>s'. parseNAWS_try s data = Inr s'"
  by (simp add: parseNAWS_try_def parseNAWS_loop_returns)

lemma parseNAWS_unchanged:
  "\<forall>i. nawsAt data i \<longrightarrow> nawsW data i = 0 \<or> nawsH data i = 0 \<Longrightarrow> parseNAWS s data = s"
  by (simp add: parseNAWS_def parseNAWS_try_def parseNAWS_loop_unchanged)

lemma parseNAWS_short: "length data < 9 \<Longrightarrow> parseNAWS s data = s"
  by (rule parseNAWS_unchanged) (simp add: nawsAt_def)

lemma nawsAt_nine:
  "nawsAt [b0, b1, b2, b3, b4, b5, b6, b7, b8] i \<longleftrightarrow>
     i = 0 \<and> b0 = TELNET_IAC \<and> b1 = TELNET_SB \<and> b2 = TELNET_NAWS
     \<and> b7 = TELNET_IAC \<and> b8 = TELNET_SE"
  by (cases i) (auto simp: nawsAt_def)

lemma parseNAWS_whole:
  "parseNAWS s [255, 250, 31, 0, 80, 0, 24, 255, 240] = s\<lparr>cols := Some 80, rows := Some 24\<rparr>"
  by (simp add: parseNAWS_def parseNAWS_try_def parseNAWS_loop.simps elemAt_def readUInt16BE_def
      TELNET_defs)

text \<open>
  C1 (as stated): the report \<open>[255,250,31,0,80,0,24,255,240]\<close>, delivered as the chunks
  \<open>[255,250,31,0,80]\<close> and \<open>[0,24,255,240]\<close>, sets the geometry to 80 by 24.  This fails:
  \<open>parseNAWS\<close> reads each chunk on its own and keeps nothing between calls, so for a client
  that has just connected both \<open>cols\<close> and \<open>rows\<close> are still \<open>undefined\<close> after the second
  chunk.
\<close>

theorem naws_split_counterexample:
  "\<not> (cols (parseNAWS (parseNAWS newSock [255, 250, 31, 0, 80]) [0, 24, 255, 240]) = Some 80
      \<and> rows (parseNAWS (parseNAWS newSock [255, 250, 31, 0, 80]) [0, 24, 255, 240]) = Some 24)"
  by (simp add: parseNAWS_short newSock_def)

text \<open>
  C1 (amended): delivered as those two chunks, the report leaves the socket as it was,
  whatever its state; delivered in one chunk, it sets \<open>cols = 80\<close> and \<open>rows = 24\<close>.
\<close>

theorem naws_split_ignored:
  "parseNAWS (parseNAWS s [255, 250, 31, 0, 80]) [0, 24, 255, 240] = s
   \<and> cols (parseNAWS s ([255, 250, 31, 0, 80] @ [0, 24, 255, 240])) = Some 80
   \<and> rows (parseNAWS s ([255, 250, 31, 0, 80] @ [0, 24, 255, 240])) = Some 24"
  by (simp add: parseNAWS_short parseNAWS_whole)

text \<open>
  C7: the body of the \<open>try\<close> block never throws, whatever the chunk; a chunk in which every
  complete report (if any) advertises width zero or height zero leaves the socket unchanged;
  in particular the nine-byte report with a zero width or a zero height, and the nine bytes
  whose last two are not \<open>IAC SE\<close>, leave \<open>cols\<close> and \<open>rows\<close> as they were.
\<close>

theorem parseNAWS_malformed_ignored:
  "(\<exists>s'. parseNAWS_try s data = Inr s')
   \<and> ((\<forall>i. nawsAt data i \<longrightarrow> nawsW data i = 0 \<or> nawsH data i = 0) \<longrightarrow> parseNAWS s data = s)
   \<and> (unat w1 * 256 + unat w0 = 0 \<or> unat h1 * 256 + unat h0 = 0 \<longrightarrow>
        parseNAWS s [255, 250, 31, w1, w0, h1, h0, 255, 240] = s)
   \<and> (b7 \<noteq> 255 \<or> b8 \<noteq> 240 \<longrightarrow>
        parseNAWS s [255, 250, 31, w1, w0, h1, h0, b7, b8] = s)"
proof (intro conjI impI)
  show "\<exists>s'. parseNAWS_try s data = Inr s'"
    by (rule parseNAWS_try_returns)
next
  assume "\<forall>i. nawsAt data i \<longrightarrow> nawsW data i = 0 \<or> nawsH data i = 0"
  then show "parseNAWS s data = s"
    by (rule parseNAWS_unchanged)
next
  assume "unat w1 * 256 + unat w0 = 0 \<or> unat h1 * 256 + unat h0 = 0"
  then show "parseNAWS s [255, 250, 31, w1, w0, h1, h0, 255, 240] = s"
    by (intro parseNAWS_unchanged) (auto simp: nawsAt_nine nawsW_def nawsH_def)
next
  assume "b7 \<noteq> 255 \<or> b8 \<noteq> 240"
  then show "parseNAWS s [255, 250, 31, w1, w0, h1, h0, b7, b8] = s"
    by (intro parseNAWS_unchanged) (auto simp: nawsAt_nine TELNET_defs)
qed

theorem parseNAWS_malformed_ignored_witness:
  "parseNAWS newSock [255, 250, 31, 0, 80, 0, 24, 255, 241] = newSock
   \<and> parseNAWS newSock [255, 250, 31, 0, 0, 0, 24, 255, 240] = newSock
   \<and> parseNAWS newSock [255, 250, 31, 0, 80, 0, 0, 255, 240] = newSock
   \<and> parseNAWS newSock [1, 2, 3] = newSock
   \<and> (\<exists>s'. parseNAWS_try newSock [255, 250, 31, 0, 80, 0, 24, 255, 241] = Inr s')"
  using parseNAWS_malformed_ignored [of newSock "[255, 250, 31, 0, 80, 0, 24, 255, 241]"
          0 0 0 24 255 240]
    parseNAWS_malformed_ignored [of newSock "[255, 250, 31, 0, 80, 0, 24, 255, 241]"
          0 80 0 0 255 240]
    parseNAWS_malformed_ignored [of newSock "[1, 2, 3]" 0 80 0 24 255 241]
  by (simp add: nawsAt_def)

section \<open>Geometry\<close>

lemma clampInt_bounds: "lo \<le> hi \<Longrightarrow> lo \<le> clampInt n lo hi \<and> clampInt n lo hi \<le> hi"
  by (simp add: clampInt_def)

lemma toInt32_small: "- (2 ^ 31) \<le> n \<Longrightarrow> n < 2 ^ 31 \<Longrightarrow> toInt32 n = n"
  by (simp add: toInt32_def)

lemma dstW_bounds: "1 \<le> dstW (computeFit cfg c r) \<and> dstW (computeFit cfg c r) \<le> 10000"
  by (simp add: computeFit_def Let_def clampInt_bounds)

lemma dstH_bounds: "1 \<le> dstH (computeFit cfg c r) \<and> dstH (computeFit cfg c r) \<le> 10000"
  by (simp add: computeFit_def Let_def clampInt_bounds)

lemma dstW_eq: "dstW (computeFit cfg c r) = clampInt (toInt32 c) 1 10000"
  by (simp add: computeFit_def Let_def)

lemma dstH_eq: "dstH (computeFit cfg c r) = clampInt (toInt32 r - 1) 1 10000"
  by (simp add: computeFit_def Let_def)

lemma dstW_le_cols: "1 \<le> c \<Longrightarrow> dstW (computeFit cfg c r) \<le> c"
proof (cases "c < 2 ^ 31")
  case True
  assume "1 \<le> c"
  with True show ?thesis by (simp add: dstW_eq toInt32_small clampInt_def)
next
  case False
  then show ?thesis using dstW_bounds [of cfg c r] by simp
qed

lemma dstH_le_rows: "2 \<le> r \<Longrightarrow> dstH (computeFit cfg c r) \<le> r - 1"
proof (cases "r < 2 ^ 31")
  case True
  assume "2 \<le> r"
  with True show ?thesis by (simp add: dstH_eq toInt32_small clampInt_def)
next
  case False
  then show ?thesis using dstH_bounds [of cfg c r] by simp
qed

lemma dstH_exact: "2 \<le> r \<Longrightarrow> r \<le> 10001 \<Longrightarrow> dstH (computeFit cfg c r) = r - 1"
  by (simp add: dstH_eq toInt32_small clampInt_def)

lemma dstH_clamped: "10001 < r \<Longrightarrow> r < 2 ^ 31 \<Longrightarrow> dstH (computeFit cfg c r) = 10000"
  by (simp add: dstH_eq toInt32_small clampInt_def)

subsection \<open>Where \<open>NaN\<close> comes from\<close>

lemma toDouble_not_NaN: "toDouble x \<noteq> NaN"
  by (simp add: toDouble_def toDoublePos_def Let_def split: js.splits)

lemma num_div_NaN: "x \<noteq> 0 \<Longrightarrow> num_div (Val x) t = NaN \<longleftrightarrow> t = NaN"
  by (cases t) (simp_all add: toDouble_not_NaN)

lemma num_mul_NaN: "x \<noteq> 0 \<Longrightarrow> num_mul (Val x) t = NaN \<longleftrightarrow> t = NaN"
  by (cases t) (simp_all add: toDouble_not_NaN)

lemma Math_floor_NaN: "Math_floor n = NaN \<longleftrightarrow> n = NaN"
  by (cases n) simp_all

lemma Math_min_NaN: "Math_min a m = NaN \<longleftrightarrow> m = NaN"
  by (cases m) simp_all

lemma clampInt_js_None: "clampInt_js n lo hi = None \<longleftrightarrow> n = NaN"
  by (cases n) simp_all

lemma clampInt_js_bounds: "lo \<le> hi \<Longrightarrow> clampInt_js n lo hi = Some k \<Longrightarrow> lo \<le> k \<and> k \<le> hi"
  by (cases n) (auto simp: clampInt_def)

text \<open>
  When the target ratio is \<open>NaN\<close>, so are the four computed fields; otherwise they are
  integers within the clamps.  Nothing else about the ratio enters the bounds.
\<close>

lemma fit_NaN:
  assumes "targetHOverW cfg = NaN"
  shows "outW (computeFit cfg c r) = None \<and> outH (computeFit cfg c r) = None
    \<and> padX (computeFit cfg c r) = None \<and> padY (computeFit cfg c r) = None"
  using assms by (simp add: computeFit_def Let_def)

lemma fit_numbers:
  assumes "targetHOverW cfg \<noteq> NaN"
  shows "\<exists>ow oh. outW (computeFit cfg c r) = Some ow \<and> outH (computeFit cfg c r) = Some oh
    \<and> 1 \<le> ow \<and> ow \<le> dstW (computeFit cfg c r)
    \<and> 1 \<le> oh \<and> oh \<le> dstH (computeFit cfg c r)
    \<and> padX (computeFit cfg c r) = Some ((dstW (computeFit cfg c r) - ow) div 2)
    \<and> padY (computeFit cfg c r) = Some ((dstH (computeFit cfg c r) - oh) div 2)"
proof -
  define dW where "dW = clampInt (toInt32 c) 1 10000"
  define dH where "dH = clampInt (toInt32 r - 1) 1 10000"
  define t where "t = targetHOverW cfg"
  have dW: "1 \<le> dW" and dH: "1 \<le> dH"
    by (simp_all add: dW_def dH_def clampInt_bounds)
  define mw where "mw = Math_min dW (Math_floor (num_div (Val (of_int dH)) t))"
  have "mw \<noteq> NaN"
    using dH assms by (simp add: mw_def t_def Math_min_NaN Math_floor_NaN num_div_NaN)
  then obtain ow where ow: "clampInt_js mw 1 dW = Some ow"
    using clampInt_js_None [of mw 1 dW] by (cases "clampInt_js mw 1 dW") auto
  then have owb: "1 \<le> ow \<and> ow \<le> dW" using clampInt_js_bounds [OF dW] by blast
  define mh where "mh = Math_min dH (Math_floor (num_mul (Val (of_int ow)) t))"
  have "mh \<noteq> NaN"
    using owb assms by (simp add: mh_def t_def Math_min_NaN Math_floor_NaN num_mul_NaN)
  then obtain oh where oh: "clampInt_js mh 1 dH = Some oh"
    using clampInt_js_None [of mh 1 dH] by (cases "clampInt_js mh 1 dH") auto
  then have ohb: "1 \<le> oh \<and> oh \<le> dH" using clampInt_js_bounds [OF dH] by blast
  have "computeFit cfg c r
      = \<lparr>dstW = dW, dstH = dH, outW = Some ow, outH = Some oh,
         padX = Some ((dW - ow) div 2), padY = Some ((dH - oh) div 2)\<rparr>"
    using ow oh
    by (simp add: computeFit_def Let_def dW_def [symmetric] dH_def [symmetric] t_def [symmetric]
        mw_def [symmetric] mh_def [symmetric])
  then show ?thesis using owb ohb by simp
qed

section \<open>Line terminators of a rendered block\<close>

lemma countNL_append [simp]: "countNL (xs @ ys) = countNL xs + countNL ys"
  by (simp add: countNL_def)

lemma countNL_Nil [simp]: "countNL [] = 0"
  by (simp add: countNL_def)

lemma countNL_Cons: "countNL (x # xs) = (if x = NL then 1 else 0) + countNL xs"
  by (simp add: countNL_def)

lemma countNL_repeat_space [simp]: "countNL (repeat_space n) = 0"
  by (simp add: countNL_def repeat_space_def NL_def)

lemma digit_not_NL: "char_of (48 + n mod 10 :: nat) \<noteq> NL"
proof
  assume "char_of (48 + n mod 10 :: nat) = NL"
  then have "of_char (char_of (48 + n mod 10 :: nat)) = (of_char NL :: nat)" by simp
  moreover have "n mod 10 < 10" by simp
  ultimately show False by (simp add: NL_def)
qed

lemma countNL_decimal [simp]: "countNL (decimal n) = 0"
proof (induction n rule: decimal.induct)
  case (1 n)
  show ?case
  proof (cases "n < 10")
    case True
    then have "n = n mod 10" by simp
    then have "char_of (48 + n) \<noteq> NL" using digit_not_NL [of n] by simp
    with True show ?thesis by (subst decimal.simps) (simp add: countNL_Cons)
  next
    case False
    with 1 show ?thesis
      using digit_not_NL [of n] by (subst decimal.simps) (simp add: countNL_Cons)
  qed
qed

lemma countNL_toStr [simp]: "countNL (toStr v) = 0"
  by (cases v) (simp_all add: toStr_def numberToString_def countNL_Cons NL_def)

lemma countNL_blank_loop:
  "countNL (foldl (\<lambda>out y. out @ blank) out ys) = countNL out + length ys * countNL blank"
  by (induction ys arbitrary: out) simp_all

lemma LUT_CFG_not_NL: "LUT (CFG w h) v = Some ch \<Longrightarrow> ch \<noteq> NL"
proof -
  assume "LUT (CFG w h) v = Some ch"
  then have "ch \<in> set (chars (CFG w h))"
    by (auto simp: LUT_def elemAt_def split: if_splits)
  then show ?thesis by (auto simp: CFG_def NL_def)
qed

lemma countNL_asciiCell:
  "countNL (asciiCell (CFG w h) grayFrame srcRow ow line ox) = countNL line"
  by (auto simp: asciiCell_def Let_def countNL_Cons NL_def split: option.splits
      dest: LUT_CFG_not_NL)

lemma countNL_asciiCells:
  "countNL (foldl (asciiCell (CFG w h) grayFrame srcRow ow) line oxs) = countNL line"
  by (induction oxs arbitrary: line) (simp_all add: countNL_asciiCell)

lemma countNL_asciiLine:
  "countNL (asciiLine (CFG w h) grayFrame f oh out oy) = countNL out + 1"
  by (simp add: asciiLine_def Let_def countNL_asciiCells countNL_Cons split: option.splits)

lemma countNL_asciiLines:
  "countNL (foldl (asciiLine (CFG w h) grayFrame f oh) out oys) = countNL out + length oys"
  by (induction oys arbitrary: out) (simp_all add: countNL_asciiLine)

lemma countNL_colourCell:
  "countNL (fst (colourCell cfg rgbFrame sy ow st ox)) = countNL (fst st)"
  by (simp add: colourCell_def Let_def countNL_Cons NL_def ESC_def)

lemma countNL_colourCells:
  "countNL (fst (foldl (colourCell cfg rgbFrame sy ow) st oxs)) = countNL (fst st)"
  by (induction oxs arbitrary: st) (simp_all add: countNL_colourCell)

lemma countNL_colourLine:
  "countNL (colourLine cfg rgbFrame f oh out oy) = countNL out + 1"
  by (simp add: colourLine_def Let_def countNL_colourCells countNL_Cons NL_def ESC_def
      split: option.splits)

lemma countNL_colourLines:
  "countNL (foldl (colourLine cfg rgbFrame f oh) out oys) = countNL out + length oys"
  by (induction oys arbitrary: out) (simp_all add: countNL_colourLine)

lemma block_height:
  "1 \<le> oh \<Longrightarrow> oh \<le> dH \<Longrightarrow>
   nat ((dH - oh) div 2) + nat oh + nat (dH - (dH - oh) div 2 - oh) = nat dH"
  by linarith

lemma countNL_renderAscii:
  "countNL (renderAscii (CFG w h) grayFrame c r)
     = (if targetHOverW (CFG w h) = NaN then 0 else nat (dstH (computeFit (CFG w h) c r)))"
proof (cases "targetHOverW (CFG w h) = NaN")
  case True
  then show ?thesis
    using fit_NaN [OF True, of c r]
    by (simp add: renderAscii_def Let_def counter_def minus2_def countNL_Cons NL_def ESC_def)
next
  case False
  obtain ow oh where "outW (computeFit (CFG w h) c r) = Some ow"
    and "outH (computeFit (CFG w h) c r) = Some oh"
    and "1 \<le> oh \<and> oh \<le> dstH (computeFit (CFG w h) c r)"
    and "padY (computeFit (CFG w h) c r) = Some ((dstH (computeFit (CFG w h) c r) - oh) div 2)"
    using fit_numbers [OF False, of c r] by blast
  then show ?thesis
    using False block_height [of oh "dstH (computeFit (CFG w h) c r)"]
    by (simp add: renderAscii_def Let_def counter_def minus2_def countNL_blank_loop
        countNL_asciiLines countNL_Cons NL_def ESC_def)
qed

lemma countNL_renderTruecolor:
  "countNL (renderTruecolor cfg rgbFrame c r)
     = (if targetHOverW cfg = NaN then 0 else nat (dstH (computeFit cfg c r)))"
proof (cases "targetHOverW cfg = NaN")
  case True
  then show ?thesis
    using fit_NaN [OF True, of c r]
    by (simp add: renderTruecolor_def Let_def counter_def minus2_def countNL_Cons NL_def ESC_def)
next
  case False
  obtain ow oh where "outW (computeFit cfg c r) = Some ow"
    and "outH (computeFit cfg c r) = Some oh"
    and "1 \<le> oh \<and> oh \<le> dstH (computeFit cfg c r)"
    and "padY (computeFit cfg c r) = Some ((dstH (computeFit cfg c r) - oh) div 2)"
    using fit_numbers [OF False, of c r] by blast
  then show ?thesis
    using False block_height [of oh "dstH (computeFit cfg c r)"]
    by (simp add: renderTruecolor_def Let_def counter_def minus2_def countNL_blank_loop
        countNL_colourLines countNL_Cons NL_def ESC_def)
qed

lemma endsNL_blank_loop:
  "endsNL out \<Longrightarrow> endsNL (foldl (\<lambda>out y. out @ repeat_space n @ [NL]) out ys)"
  by (induction ys arbitrary: out) (simp_all add: endsNL_def)

lemma endsNL_asciiLine: "endsNL (asciiLine cfg grayFrame f oh out oy)"
  by (simp add: asciiLine_def Let_def endsNL_def)

lemma endsNL_colourLine: "endsNL (colourLine cfg rgbFrame f oh out oy)"
  by (simp add: colourLine_def Let_def endsNL_def)

lemma endsNL_line_loop:
  "(\<And>out oy. endsNL (step out oy)) \<Longrightarrow> oys \<noteq> [] \<Longrightarrow> endsNL (foldl step out oys)"
  by (induction oys arbitrary: out rule: rev_induct) simp_all

lemma endsNL_renderAscii:
  assumes "targetHOverW cfg \<noteq> NaN"
  shows "endsNL (renderAscii cfg grayFrame c r)"
proof -
  obtain oh where oh: "outH (computeFit cfg c r) = Some oh" and pos: "1 \<le> oh"
    using fit_numbers [OF assms, of c r] by blast
  have rows: "[0 ..< nat oh] \<noteq> []" using pos by simp
  show ?thesis
    unfolding renderAscii_def Let_def oh option.case
    by (intro endsNL_blank_loop endsNL_line_loop endsNL_asciiLine rows)
qed

lemma endsNL_renderTruecolor:
  assumes "targetHOverW cfg \<noteq> NaN"
  shows "endsNL (renderTruecolor cfg rgbFrame c r)"
proof -
  obtain oh where oh: "outH (computeFit cfg c r) = Some oh" and pos: "1 \<le> oh"
    using fit_numbers [OF assms, of c r] by blast
  have rows: "[0 ..< nat oh] \<noteq> []" using pos by simp
  show ?thesis
    unfolding renderTruecolor_def Let_def oh option.case
    by (intro endsNL_blank_loop endsNL_line_loop endsNL_colourLine rows)
qed

subsection \<open>Doubles at the sizes used below\<close>

lemma floor_rat_numeral_div:
  "\<lfloor>numeral a / numeral b :: rat\<rfloor> = numeral a div numeral b"
  using floor_divide_of_int_eq [of "numeral a" "numeral b", where ?'a = rat] by simp

lemmas toDouble_eval = toDouble_def toDoublePos_def roundHalfEven_def pow2_def exponent_def
  log2_up.simps log2_down.simps Let_def floor_rat_numeral_div

lemma targetHOverW_4_4: "targetHOverW (CFG 4 4) = Val (1 / 2)"
  by (simp add: targetHOverW_def CFG_def toDouble_eval)

lemma targetHOverW_0_0: "targetHOverW (CFG 0 0) = NaN"
  by (simp add: targetHOverW_def CFG_def toDouble_def)

lemma targetHOverW_240_135: "targetHOverW (CFG 240 135) = Val (9 / 32)"
  by (simp add: targetHOverW_def CFG_def toDouble_eval)

text \<open>
  A ratio that is not a double: for a base size of 100 by 56 the target ratio is the double
  next to 0.28, above it, and a terminal of 25 by 8 gets a width of 24, where the exact
  quotient \<open>7 / 0.28\<close> is 25.
\<close>

lemma computeFit_100_56:
  "computeFit (CFG 100 56) 25 8
     = \<lparr>dstW = 25, dstH = 7, outW = Some 24, outH = Some 6, padX = Some 0, padY = Some 0\<rparr>"
  by (simp add: computeFit_def targetHOverW_def CFG_def clampInt_def toInt32_def toDouble_eval)

lemma computeFit_0_0:
  "computeFit (CFG 0 0) 80 24
     = \<lparr>dstW = 80, dstH = 23, outW = None, outH = None, padX = None, padY = None\<rparr>"
  by (simp add: computeFit_def targetHOverW_0_0 clampInt_def toInt32_def)

subsection \<open>Base sizes whose ratio is a number\<close>

lemma log2_up_le: "1 \<le> x \<Longrightarrow> 2 ^ log2_up x \<le> x"
proof (induction x rule: log2_up.induct)
  case (1 x)
  show ?case
  proof (cases "2 \<le> x")
    case True
    then have "2 ^ log2_up (x / 2) \<le> x / 2" using "1.IH" by simp
    then show ?thesis using True by (subst log2_up.simps) simp
  next
    case False
    then show ?thesis using "1.prems" by (subst log2_up.simps) simp
  qed
qed

lemma pow2_pos: "0 < pow2 e"
  by (simp add: pow2_def)

lemma pow2_le: "0 \<le> e \<Longrightarrow> pow2 (e - 52) \<le> 2 ^ nat e"
proof (cases "52 \<le> e")
  case True
  then have "(2::rat) ^ nat (e - 52) \<le> 2 ^ nat e" by (intro power_increasing) simp_all
  then show ?thesis using True by (simp add: pow2_def)
next
  case False
  assume "0 \<le> e"
  have "1 / 2 ^ nat (52 - e) \<le> (1::rat)" by simp
  also have "\<dots> \<le> 2 ^ nat e" by simp
  finally show ?thesis using False by (simp add: pow2_def)
qed

lemma roundHalfEven_bounds:
  "of_int \<lfloor>y\<rfloor> \<le> (of_int (roundHalfEven y) :: rat) \<and> of_int (roundHalfEven y) \<le> y + 1"
proof -
  have up: "(of_int \<lfloor>y\<rfloor> :: rat) \<le> y + 1" using of_int_floor_le [of y] by linarith
  have "roundHalfEven y = \<lfloor>y\<rfloor> \<or> roundHalfEven y = \<lfloor>y\<rfloor> + 1"
    by (simp add: roundHalfEven_def Let_def)
  then show ?thesis
  proof
    assume "roundHalfEven y = \<lfloor>y\<rfloor>"
    then show ?thesis using up by simp
  next
    assume "roundHalfEven y = \<lfloor>y\<rfloor> + 1"
    then show ?thesis by simp
  qed
qed

lemma toDoublePos_ge_one:
  assumes "1 \<le> x"
  shows "toDoublePos x = PosInfinity \<or> (\<exists>y. 0 < y \<and> toDoublePos x = Val y)"
    and "x < 2 ^ 1023 \<Longrightarrow> \<exists>y. 0 < y \<and> toDoublePos x = Val y"
proof -
  define q where "q = pow2 (max (exponent x) (- 1022) - 52)"
  define y where "y = of_int (roundHalfEven (x / q)) * q"
  have e: "exponent x = int (log2_up x)" using assms by (simp add: exponent_def)
  then have q': "q = pow2 (int (log2_up x) - 52)" by (simp add: q_def)
  have qpos: "0 < q" by (simp add: q_def pow2_pos)
  have "q \<le> 2 ^ log2_up x" using pow2_le [of "int (log2_up x)"] by (simp add: q')
  then have qx: "q \<le> x" using log2_up_le [OF assms] by simp
  then have "1 \<le> x / q" using qpos by (simp add: le_divide_eq)
  then have "1 \<le> \<lfloor>x / q\<rfloor>" by (simp add: le_floor_iff)
  then have "(1::rat) \<le> of_int \<lfloor>x / q\<rfloor>" by simp
  then have "(1::rat) \<le> of_int (roundHalfEven (x / q))"
    using roundHalfEven_bounds [of "x / q"] by linarith
  then have ypos: "0 < y" using qpos by (simp add: y_def)
  have run: "toDoublePos x = (if 2 ^ 1024 \<le> y then PosInfinity else Val y)"
    by (simp add: toDoublePos_def Let_def q_def y_def)
  show "toDoublePos x = PosInfinity \<or> (\<exists>y. 0 < y \<and> toDoublePos x = Val y)"
    using run ypos by auto
  show "\<exists>y. 0 < y \<and> toDoublePos x = Val y" if small: "x < 2 ^ 1023"
  proof -
    have "of_int (roundHalfEven (x / q)) \<le> x / q + 1"
      using roundHalfEven_bounds [of "x / q"] by simp
    then have "y \<le> (x / q + 1) * q" using qpos by (simp add: y_def)
    also have "\<dots> = x + q" using qpos by (simp add: field_simps)
    also have "\<dots> \<le> x + x" using qx by simp
    also have "\<dots> < 2 ^ 1023 + 2 ^ 1023" using small by simp
    finally have "y < 2 ^ 1024" by simp
    then show ?thesis using run ypos by auto
  qed
qed

lemma toDouble_nat:
  "toDouble (of_nat n) = PosInfinity \<or> (\<exists>y. 0 \<le> y \<and> toDouble (of_nat n) = Val y)"
proof (cases "n = 0")
  case True
  then show ?thesis by (simp add: toDouble_def)
next
  case False
  then have "(1::rat) \<le> of_nat n" by simp
  then show ?thesis
    using toDoublePos_ge_one(1) [of "of_nat n"] False by (auto simp: toDouble_def intro: less_imp_le)
qed

lemma toDouble_nat_pos:
  assumes "0 < n" and "n < 2 ^ 1023"
  shows "\<exists>y. 0 < y \<and> toDouble (of_nat n) = Val y"
proof -
  have one: "(1::rat) \<le> of_nat n" using assms(1) by simp
  have "(of_nat n :: rat) < of_nat (2 ^ 1023)" using assms(2) by (simp only: of_nat_less_iff)
  then have "(of_nat n :: rat) < 2 ^ 1023" by simp
  then show ?thesis
    using toDoublePos_ge_one(2) [OF one] assms(1) by (simp add: toDouble_def)
qed

lemma num_div_Val_NaN: "y \<noteq> 0 \<Longrightarrow> num_div a (Val y) = NaN \<longleftrightarrow> a = NaN"
  by (cases a) (simp_all add: toDouble_not_NaN)

lemma toDouble_2: "toDouble 2 = Val 2"
  by (simp add: toDouble_eval)

text \<open>
  The target ratio is a number as soon as one side of the base size is positive and below
  \<open>2^1023\<close>; it is \<open>NaN\<close> for the base size 0 by 0 (\<open>targetHOverW_0_0\<close>).
\<close>

lemma targetHOverW_number:
  assumes "(0 < w \<and> w < 2 ^ 1023) \<or> (0 < h \<and> h < 2 ^ 1023)"
  shows "targetHOverW (CFG w h) \<noteq> NaN"
proof -
  have "num_div (toDouble (of_nat h)) (toDouble (of_nat w)) \<noteq> NaN"
  proof (cases "0 < w \<and> w < 2 ^ 1023")
    case True
    then obtain b where "0 < b" and "toDouble (of_nat w) = Val b"
      using toDouble_nat_pos [of w] by blast
    then show ?thesis by (simp add: num_div_Val_NaN toDouble_not_NaN)
  next
    case False
    then obtain a where a: "0 < a" and A: "toDouble (of_nat h) = Val a"
      using assms toDouble_nat_pos [of h] by blast
    then have "a \<noteq> 0" by simp
    then show ?thesis
      using A by (simp add: num_div_NaN toDouble_not_NaN)
  qed
  then show ?thesis
    by (simp add: targetHOverW_def CFG_def toDouble_2 num_div_Val_NaN)
qed

text \<open>
  C9: the index into the ramp does not decrease when the luma grows, for every ramp; with
  the ramp of the source, the table entry for a luma is the ramp character at that index.
\<close>

theorem lut_monotone:
  assumes "u \<le> v" and "v \<le> 255"
  shows "lutIndex cfg u \<le> lutIndex cfg v
    \<and> LUT (CFG w h) u = Some (chars (CFG w h) ! lutIndex (CFG w h) u)
    \<and> LUT (CFG w h) v = Some (chars (CFG w h) ! lutIndex (CFG w h) v)"
proof -
  have "u * (length (chars cfg) - 1) \<le> v * (length (chars cfg) - 1)"
    using assms(1) by (rule mult_le_mono1)
  then have mono: "lutIndex cfg u \<le> lutIndex cfg v"
    unfolding lutIndex_def by (rule div_le_mono)
  have idx: "lutIndex (CFG w h) x < length (chars (CFG w h))" if "x \<le> 255" for x
  proof -
    have "x * 9 div 255 \<le> 255 * 9 div 255" using that by (intro div_le_mono mult_le_mono1)
    then show ?thesis by (simp add: lutIndex_def CFG_def)
  qed
  have "LUT (CFG w h) x = Some (chars (CFG w h) ! lutIndex (CFG w h) x)" if "x \<le> 255" for x
    using idx [OF that] that by (simp add: LUT_def elemAt_def)
  with mono assms show ?thesis by simp
qed

theorem lut_monotone_witness:
  "lutIndex (CFG 240 135) 100 \<le> lutIndex (CFG 240 135) 200
   \<and> LUT (CFG 240 135) 100 = Some CHR ''-''
   \<and> LUT (CFG 240 135) 200 = Some CHR ''#''"
  using lut_monotone [of 100 200 "CFG 240 135" 240 135]
  by (simp add: lutIndex_def CFG_def)

text \<open>
  C2 (as stated): for a 10 by 3 terminal and a 4 by 4 base size, with \<open>charAspect\<close> 2,
  \<open>computeFit\<close> returns \<open>outW = 2\<close>, \<open>outH = 2\<close> and \<open>padX = 4\<close>.  This fails: the target ratio
  is 1/2, two rows allow a width of 4, and the block of width 4 is centred with \<open>padX = 3\<close>.
\<close>

theorem computeFit_scenario_counterexample:
  "\<not> (outW (computeFit (CFG 4 4) 10 3) = Some 2 \<and> outH (computeFit (CFG 4 4) 10 3) = Some 2
      \<and> padX (computeFit (CFG 4 4) 10 3) = Some 4)"
  by (simp add: computeFit_def targetHOverW_4_4 clampInt_def toInt32_def toDouble_eval)

text \<open>
  C2 (amended): for that terminal and base size \<open>computeFit\<close> returns \<open>dstW = 10\<close>,
  \<open>dstH = 2\<close>, \<open>outW = 4\<close>, \<open>outH = 2\<close>, \<open>padX = 3\<close> and \<open>padY = 0\<close>.
\<close>

theorem computeFit_scenario:
  "charAspect (CFG 4 4) = 2
   \<and> computeFit (CFG 4 4) 10 3
       = \<lparr>dstW = 10, dstH = 2, outW = Some 4, outH = Some 2, padX = Some 3, padY = Some 0\<rparr>"
proof (rule conjI)
  show "charAspect (CFG 4 4) = 2" by (simp add: CFG_def)
  show "computeFit (CFG 4 4) 10 3
      = \<lparr>dstW = 10, dstH = 2, outW = Some 4, outH = Some 2, padX = Some 3, padY = Some 0\<rparr>"
    by (simp add: computeFit_def targetHOverW_4_4 clampInt_def toInt32_def toDouble_eval)
qed

text \<open>
  C6 (as stated): for every \<open>(cols, rows)\<close> with \<open>rows \<ge> 2\<close> each renderer's block has
  exactly \<open>rows - 1\<close> lines.  This fails for a terminal of more than 10001 rows, which a
  window-size report can announce: the usable height is clamped to 10000, so for 80 by 10002
  the block has 10000 lines.  It also fails when the server is started with
  \<open>--width 0 --height 0\<close>, which it accepts: the target ratio is \<open>0 / 0\<close>, the fit is \<open>NaN\<close>
  and no loop of the renderer runs, so for 80 by 24 the block has no line.
\<close>

theorem letterbox_lines_counterexample:
  "countNL (renderAscii (CFG 4 4) (rgbToGray (CFG 4 4) (replicate 48 0)) 80 10002)
     \<noteq> nat (10002 - 1)
   \<and> countNL (renderTruecolor (CFG 4 4) (replicate 48 0) 80 10002) \<noteq> nat (10002 - 1)
   \<and> countNL (renderAscii (CFG 0 0) (rgbToGray (CFG 0 0) []) 80 24) \<noteq> nat (24 - 1)
   \<and> countNL (renderTruecolor (CFG 0 0) [] 80 24) \<noteq> nat (24 - 1)"
  by (simp add: countNL_renderAscii countNL_renderTruecolor dstH_eq toInt32_def clampInt_def
      targetHOverW_4_4 targetHOverW_0_0)

text \<open>
  C6 (amended): for every terminal with \<open>cols \<ge> 1\<close> and \<open>rows \<ge> 2\<close>, and every base size
  whose ratio \<open>baseH / baseW\<close> is a number (that is, not \<open>NaN\<close> as for 0 by 0), the fit is
  made of numbers with \<open>outH + 2 * padY \<le> rows - 1\<close> and \<open>outW + 2 * padX \<le> cols\<close>; each
  renderer's block ends with a line terminator and has exactly \<open>dstH\<close> of them, where
  \<open>dstH\<close> is \<open>(rows | 0) - 1\<close> clamped to \<open>1..10000\<close>: that is \<open>rows - 1\<close> when
  \<open>rows \<le> 10001\<close>, and 10000 when \<open>10001 < rows < 2^31\<close>.
\<close>

theorem letterbox_coverage:
  assumes "targetHOverW (CFG w h) \<noteq> NaN" and "1 \<le> c" and "2 \<le> r"
  shows "(\<exists>ow oh px py.
            outW (computeFit (CFG w h) c r) = Some ow \<and> outH (computeFit (CFG w h) c r) = Some oh
          \<and> padX (computeFit (CFG w h) c r) = Some px \<and> padY (computeFit (CFG w h) c r) = Some py
          \<and> oh + 2 * py \<le> r - 1 \<and> ow + 2 * px \<le> c)
    \<and> endsNL (renderAscii (CFG w h) grayFrame c r)
    \<and> endsNL (renderTruecolor (CFG w h) rgbFrame c r)
    \<and> countNL (renderAscii (CFG w h) grayFrame c r) = nat (clampInt (toInt32 r - 1) 1 10000)
    \<and> countNL (renderTruecolor (CFG w h) rgbFrame c r) = nat (clampInt (toInt32 r - 1) 1 10000)
    \<and> (r \<le> 10001 \<longrightarrow>
          countNL (renderAscii (CFG w h) grayFrame c r) = nat (r - 1)
        \<and> countNL (renderTruecolor (CFG w h) rgbFrame c r) = nat (r - 1))
    \<and> (10001 < r \<and> r < 2 ^ 31 \<longrightarrow>
          countNL (renderAscii (CFG w h) grayFrame c r) = 10000
        \<and> countNL (renderTruecolor (CFG w h) rgbFrame c r) = 10000)"
proof -
  let ?f = "computeFit (CFG w h) c r"
  obtain ow oh where ow: "outW ?f = Some ow" and oh: "outH ?f = Some oh"
    and owb: "1 \<le> ow \<and> ow \<le> dstW ?f" and ohb: "1 \<le> oh \<and> oh \<le> dstH ?f"
    and px: "padX ?f = Some ((dstW ?f - ow) div 2)"
    and py: "padY ?f = Some ((dstH ?f - oh) div 2)"
    using fit_numbers [OF assms(1), of c r] by blast
  have "dstH ?f \<le> r - 1" using assms(3) by (rule dstH_le_rows)
  then have a: "oh + 2 * ((dstH ?f - oh) div 2) \<le> r - 1" using ohb by linarith
  have "dstW ?f \<le> c" using assms(2) by (rule dstW_le_cols)
  then have b: "ow + 2 * ((dstW ?f - ow) div 2) \<le> c" using owb by linarith
  have fit: "\<exists>ow oh px py.
            outW ?f = Some ow \<and> outH ?f = Some oh \<and> padX ?f = Some px \<and> padY ?f = Some py
          \<and> oh + 2 * py \<le> r - 1 \<and> ow + 2 * px \<le> c"
    using ow oh px py a b by blast
  have small: "dstH ?f = r - 1" if "r \<le> 10001"
    using assms(3) that by (rule dstH_exact)
  have large: "dstH ?f = 10000" if "10001 < r \<and> r < 2 ^ 31"
    using that by (simp add: dstH_clamped)
  have n1: "countNL (renderAscii (CFG w h) grayFrame c r) = nat (dstH ?f)"
    using assms(1) by (simp add: countNL_renderAscii)
  have n2: "countNL (renderTruecolor (CFG w h) rgbFrame c r) = nat (dstH ?f)"
    using assms(1) by (simp add: countNL_renderTruecolor)
  show ?thesis
    using fit small large endsNL_renderAscii [OF assms(1)] endsNL_renderTruecolor [OF assms(1)]
    unfolding n1 n2 by (simp add: dstH_eq)
qed

theorem letterbox_coverage_witness:
  "targetHOverW (CFG 4 4) \<noteq> NaN
   \<and> outW (computeFit (CFG 4 4) 10 3) = Some 4 \<and> outH (computeFit (CFG 4 4) 10 3) = Some 2
   \<and> padX (computeFit (CFG 4 4) 10 3) = Some 3 \<and> padY (computeFit (CFG 4 4) 10 3) = Some 0
   \<and> endsNL (renderAscii (CFG 4 4) (rgbToGray (CFG 4 4) (replicate 48 7)) 10 3)
   \<and> countNL (renderAscii (CFG 4 4) (rgbToGray (CFG 4 4) (replicate 48 7)) 10 3) = 2
   \<and> countNL (renderTruecolor (CFG 4 4) (replicate 48 7) 10 3) = 2"
proof -
  have fit: "computeFit (CFG 4 4) 10 3
      = \<lparr>dstW = 10, dstH = 2, outW = Some 4, outH = Some 2, padX = Some 3, padY = Some 0\<rparr>"
    by (simp add: computeFit_def targetHOverW_4_4 clampInt_def toInt32_def toDouble_eval)
  have num: "targetHOverW (CFG 4 4) \<noteq> NaN" by (simp add: targetHOverW_4_4)
  show ?thesis
    using letterbox_coverage [OF num, of 10 3 "rgbToGray (CFG 4 4) (replicate 48 7)"
        "replicate 48 7"] num
    by (simp add: fit)
qed


section \<open>ASCII bytes and the decoded text\<close>

lemma utf8_inv_init: "utf8_inv utf8_init"
  by (simp add: utf8_inv_def utf8_init_def)

lemma utf8_lead_ascii: "b < 128 \<Longrightarrow> utf8_lead b = ([b], utf8_init)"
  by (simp add: utf8_lead_def)

lemma mod32_lead: "0xC2 \<le> b \<Longrightarrow> b \<le> 0xDF \<Longrightarrow> 2 \<le> (b::nat) mod 32"
  by presburger

lemma mod16_lead: "0xE1 \<le> b \<Longrightarrow> b \<le> 0xEF \<Longrightarrow> 1 \<le> (b::nat) mod 16"
  by presburger

lemma mod8_lead: "0xF1 \<le> b \<Longrightarrow> b \<le> 0xF4 \<Longrightarrow> 1 \<le> (b::nat) mod 8"
  by presburger

lemma utf8_lead_inv: "utf8_inv (snd (utf8_lead b))"
proof -
  consider "b \<le> 0x7F" | "0xC2 \<le> b \<and> b \<le> 0xDF" | "b = 0xE0" | "0xE1 \<le> b \<and> b \<le> 0xEF"
    | "b = 0xF0" | "0xF1 \<le> b \<and> b \<le> 0xF4" | "0x80 \<le> b \<and> b < 0xC2" | "0xF4 < b"
    by linarith
  then show ?thesis
  proof cases
    case 1
    then show ?thesis by (simp add: utf8_lead_def utf8_inv_init)
  next
    case 2
    then show ?thesis
      using mod32_lead [of b] by (simp add: utf8_lead_def utf8_inv_def utf8_init_def)
  next
    case 3
    then show ?thesis by (simp add: utf8_lead_def utf8_inv_def utf8_init_def)
  next
    case 4
    then have "1 \<le> b mod 16" using mod16_lead [of b] by simp
    then have "2 \<le> b mod 16 \<or> b mod 16 = 1" by linarith
    with 4 show ?thesis by (auto simp: utf8_lead_def utf8_inv_def utf8_init_def)
  next
    case 5
    then show ?thesis by (simp add: utf8_lead_def utf8_inv_def utf8_init_def)
  next
    case 6
    then have "1 \<le> b mod 8" using mod8_lead [of b] by simp
    then have "2 \<le> b mod 8 \<or> b mod 8 = 1" by linarith
    with 6 show ?thesis by (auto simp: utf8_lead_def utf8_inv_def utf8_init_def)
  next
    case 7
    then show ?thesis by (simp add: utf8_lead_def utf8_inv_init)
  next
    case 8
    then show ?thesis by (simp add: utf8_lead_def utf8_inv_init)
  qed
qed

lemma utf8_lead_out: "c \<in> set (fst (utf8_lead b)) \<Longrightarrow> c < 128 \<Longrightarrow> c = b"
  by (auto simp: utf8_lead_def split: if_splits)

lemma cont_mod64: "0x80 \<le> b \<Longrightarrow> b \<le> 0xBF \<Longrightarrow> (b::nat) mod 64 = b - 128"
proof -
  assume "0x80 \<le> b" and "b \<le> 0xBF"
  then have b: "b = 64 * 2 + (b - 128)" and k: "b - 128 < 64" by simp_all
  have "(64 * 2 + (b - 128)) mod 64 = (b - 128) mod 64" by (rule mod_mult_self4)
  then show ?thesis using b k by simp
qed

lemma utf8_step_cp:
  assumes "utf8_inv st" and "bytesNeeded st \<noteq> 0"
    and "\<not> (b < lowerBound st \<or> upperBound st < b)"
  shows "2 \<le> codePoint st * 64 + b mod 64"
    and "bytesSeen st + 1 = bytesNeeded st \<Longrightarrow> 128 \<le> codePoint st * 64 + b mod 64"
proof -
  have range: "0x80 \<le> b" "b \<le> 0xBF"
    using assms by (auto simp: utf8_inv_def)
  have m: "b mod 64 = b - 128" using range by (rule cont_mod64)
  have cases: "2 \<le> codePoint st \<or> (codePoint st = 1 \<and> bytesSeen st + 2 \<le> bytesNeeded st)
      \<or> (bytesSeen st + 2 \<le> bytesNeeded st \<and> 0x90 \<le> b)"
    using assms by (auto simp: utf8_inv_def)
  then show "2 \<le> codePoint st * 64 + b mod 64"
    unfolding m by auto
  show "128 \<le> codePoint st * 64 + b mod 64" if "bytesSeen st + 1 = bytesNeeded st"
  proof -
    have "2 \<le> codePoint st" using cases that by auto
    then have "2 * 64 \<le> codePoint st * 64" by (rule mult_le_mono1)
    then show ?thesis by simp
  qed
qed

lemma utf8_step_inv:
  assumes "utf8_inv st" and "bytesNeeded st \<noteq> 0"
    and "\<not> (b < lowerBound st \<or> upperBound st < b)"
    and "bytesSeen st + 1 \<noteq> bytesNeeded st"
  shows "utf8_inv (st\<lparr>lowerBound := 0x80, upperBound := 0xBF,
      codePoint := codePoint st * 64 + b mod 64, bytesSeen := bytesSeen st + 1\<rparr>)"
proof -
  have "bytesSeen st < bytesNeeded st" using assms(1,2) by (auto simp: utf8_inv_def)
  then have "bytesSeen st + 1 < bytesNeeded st" using assms(4) by simp
  then show ?thesis
    using utf8_step_cp(1) [OF assms(1,2,3)] by (simp add: utf8_inv_def)
qed

lemma utf8_decode_no_new_ascii:
  "utf8_inv st \<Longrightarrow> c \<in> set (utf8_decode st bs) \<Longrightarrow> c < 128 \<Longrightarrow> c \<in> set bs"
proof (induction bs arbitrary: st)
  case Nil
  then show ?case by (simp split: if_splits)
next
  case (Cons b bs)
  obtain out st' where lead: "utf8_lead b = (out, st')" by (cases "utf8_lead b")
  have inv': "utf8_inv st'" using utf8_lead_inv [of b] lead by simp
  have out: "c \<in> set out \<Longrightarrow> c = b" using utf8_lead_out [of c b] lead Cons.prems(3) by simp
  show ?case
  proof (cases "bytesNeeded st = 0")
    case True
    then have "c \<in> set out \<or> c \<in> set (utf8_decode st' bs)"
      using Cons.prems(2) lead by simp
    then show ?thesis using out Cons.IH [OF inv' _ Cons.prems(3)] by auto
  next
    case pending: False
    show ?thesis
    proof (cases "b < lowerBound st \<or> upperBound st < b")
      case True
      then have "c = 0xFFFD \<or> c \<in> set out \<or> c \<in> set (utf8_decode st' bs)"
        using Cons.prems(2) lead pending by auto
      then show ?thesis using out Cons.IH [OF inv' _ Cons.prems(3)] Cons.prems(3) by auto
    next
      case cont: False
      let ?cp = "codePoint st * 64 + b mod 64"
      show ?thesis
      proof (cases "bytesSeen st + 1 = bytesNeeded st")
        case True
        then have "c = ?cp \<or> c \<in> set (utf8_decode utf8_init bs)"
          using Cons.prems(2) pending cont by (auto simp: Let_def)
        moreover have "128 \<le> ?cp"
          using utf8_step_cp(2) [OF Cons.prems(1) pending cont True] .
        ultimately show ?thesis
          using Cons.IH [OF utf8_inv_init _ Cons.prems(3)] Cons.prems(3) by auto
      next
        case False
        let ?st = "st\<lparr>lowerBound := 0x80, upperBound := 0xBF, codePoint := ?cp,
            bytesSeen := bytesSeen st + 1\<rparr>"
        have "c \<in> set (utf8_decode ?st bs)"
          using Cons.prems(2) pending cont False by (auto simp: Let_def)
        then show ?thesis
          using Cons.IH [OF utf8_step_inv [OF Cons.prems(1) pending cont False] _ Cons.prems(3)]
          by simp
      qed
    qed
  qed
qed

lemma utf8_decode_suffix:
  "utf8_inv st \<Longrightarrow> \<exists>st' pre. utf8_inv st' \<and> utf8_decode st (b # bs) = pre @ utf8_decode st' bs
     \<and> (b < 128 \<longrightarrow> b \<in> set pre)"
proof -
  assume inv: "utf8_inv st"
  obtain out st' where lead: "utf8_lead b = (out, st')" by (cases "utf8_lead b")
  have inv': "utf8_inv st'" using utf8_lead_inv [of b] lead by simp
  have asc: "b < 128 \<Longrightarrow> b \<in> set out" using utf8_lead_ascii [of b] lead by auto
  show ?thesis
  proof (cases "bytesNeeded st = 0")
    case True
    then have "utf8_decode st (b # bs) = out @ utf8_decode st' bs" using lead by simp
    then show ?thesis using inv' asc by blast
  next
    case pending: False
    show ?thesis
    proof (cases "b < lowerBound st \<or> upperBound st < b")
      case True
      then have "utf8_decode st (b # bs) = (0xFFFD # out) @ utf8_decode st' bs"
        using lead pending by auto
      moreover have "b < 128 \<longrightarrow> b \<in> set (0xFFFD # out)" using asc by simp
      ultimately show ?thesis using inv' by blast
    next
      case cont: False
      then have hi: "\<not> b < 128" using inv pending by (auto simp: utf8_inv_def)
      let ?cp = "codePoint st * 64 + b mod 64"
      show ?thesis
      proof (cases "bytesSeen st + 1 = bytesNeeded st")
        case True
        then have "utf8_decode st (b # bs) = [?cp] @ utf8_decode utf8_init bs"
          using pending cont by (auto simp: Let_def)
        then show ?thesis using utf8_inv_init hi by blast
      next
        case False
        let ?st = "st\<lparr>lowerBound := 0x80, upperBound := 0xBF, codePoint := ?cp,
            bytesSeen := bytesSeen st + 1\<rparr>"
        have "utf8_decode st (b # bs) = [] @ utf8_decode ?st bs"
          using pending cont False by (auto simp: Let_def)
        then show ?thesis using utf8_step_inv [OF inv pending cont False] hi by blast
      qed
    qed
  qed
qed

lemma utf8_decode_keeps_ascii:
  "utf8_inv st \<Longrightarrow> c \<in> set bs \<Longrightarrow> c < 128 \<Longrightarrow> c \<in> set (utf8_decode st bs)"
proof (induction bs arbitrary: st)
  case Nil
  then show ?case by simp
next
  case (Cons b bs)
  obtain st' pre where inv': "utf8_inv st'"
    and eq: "utf8_decode st (b # bs) = pre @ utf8_decode st' bs"
    and asc: "b < 128 \<longrightarrow> b \<in> set pre"
    using utf8_decode_suffix [OF Cons.prems(1)] by blast
  show ?case
  proof (cases "c = b")
    case True
    then show ?thesis using asc eq Cons.prems(3) by simp
  next
    case False
    then have "c \<in> set bs" using Cons.prems(2) by simp
    then show ?thesis using Cons.IH [OF inv' _ Cons.prems(3)] eq by simp
  qed
qed

lemma utf16_ascii: "c < 128 \<Longrightarrow> c \<in> set (concat (map utf16 cps)) \<longleftrightarrow> c \<in> set cps"
  by (induction cps) (auto simp: utf16_def)

lemma ascii_in_text:
  assumes "c < 128"
  shows "c \<in> set (textFromTelnet data) \<longleftrightarrow> of_nat c \<in> set data"
proof -
  let ?bs = "map unat (filter (\<lambda>b. b \<noteq> TELNET_IAC) data)"
  have "c \<in> set (textFromTelnet data) \<longleftrightarrow> c \<in> set (utf8_decode utf8_init ?bs)"
    unfolding textFromTelnet_def toString_utf8_def using assms by (rule utf16_ascii)
  also have "\<dots> \<longleftrightarrow> c \<in> set ?bs"
    using utf8_decode_no_new_ascii [OF utf8_inv_init _ assms]
      utf8_decode_keeps_ascii [OF utf8_inv_init _ assms] by blast
  also have "\<dots> \<longleftrightarrow> (of_nat c :: byte) \<in> set data"
  proof
    assume "c \<in> set ?bs"
    then obtain b where "b \<in> set data" and "unat b = c" by auto
    then show "(of_nat c :: byte) \<in> set data" by auto
  next
    assume mem: "(of_nat c :: byte) \<in> set data"
    have u: "unat (of_nat c :: byte) = c" using assms by (simp add: unat_of_nat)
    then have "(of_nat c :: byte) \<noteq> TELNET_IAC" using assms by (auto simp: TELNET_IAC_def)
    then show "c \<in> set ?bs" using mem u by force
  qed
  finally show ?thesis .
qed

section \<open>Keys in an input chunk\<close>

lemma parseNAWS_loop_geometry_only:
  "\<exists>g. parseNAWS_loop data i s = Inr (s\<lparr>cols := fst g, rows := snd g\<rparr>)"
proof (induction data i s rule: parseNAWS_loop.induct)
  case (1 data i s)
  show ?case
  proof (cases "i + 8 < length data")
    case False
    then have "parseNAWS_loop data i s = Inr (s\<lparr>cols := fst (cols s, rows s),
        rows := snd (cols s, rows s)\<rparr>)"
      by (simp add: parseNAWS_loop_done)
    then show ?thesis by blast
  next
    case True
    then have r3: "readUInt16BE data (i + 3) = Inr (nawsW data i)"
      and r5: "readUInt16BE data (i + 5) = Inr (nawsH data i)"
      by (simp_all add: readUInt16BE_def nawsW_def nawsH_def numeral_eq_Suc)
    note ih2 = "1.IH"(2) [OF True _ _ r3 r5]
    show ?thesis
    proof (cases "nawsAt data i")
      case False
      then have "parseNAWS_loop data i s = parseNAWS_loop data (i + 1) s"
        using True by (subst parseNAWS_loop.simps) (auto simp: nawsAt_def elemAt_def r3 r5)
      moreover have "\<exists>g. parseNAWS_loop data (i + 1) s = Inr (s\<lparr>cols := fst g, rows := snd g\<rparr>)"
        using False True "1.IH"(1) "1.IH"(3)
        by (cases "elemAt data i = Some TELNET_IAC \<and> elemAt data (i + 1) = Some TELNET_SB
              \<and> elemAt data (i + 2) = Some TELNET_NAWS") (auto simp: nawsAt_def elemAt_def)
      ultimately show ?thesis by simp
    next
      case yes: True
      define s' where "s' = (if nawsW data i > 0 \<and> nawsH data i > 0
        then s\<lparr>cols := Some (nawsW data i), rows := Some (nawsH data i)\<rparr> else s)"
      have "parseNAWS_loop data i s = parseNAWS_loop data (i + 1) s'"
        using True yes unfolding s'_def
        by (subst parseNAWS_loop.simps) (auto simp: nawsAt_def elemAt_def r3 r5)
      moreover have "\<exists>g. parseNAWS_loop data (i + 1) s' = Inr (s'\<lparr>cols := fst g, rows := snd g\<rparr>)"
        using ih2 yes True unfolding s'_def by (auto simp: nawsAt_def elemAt_def)
      moreover have "s'\<lparr>cols := a, rows := b\<rparr> = s\<lparr>cols := a, rows := b\<rparr>" for a b
        by (simp add: s'_def)
      ultimately show ?thesis by simp
    qed
  qed
qed

lemma parseNAWS_geometry_only:
  "\<exists>g. parseNAWS s data = s\<lparr>cols := fst g, rows := snd g\<rparr>"
proof -
  obtain g where "parseNAWS_loop data 0 s = Inr (s\<lparr>cols := fst g, rows := snd g\<rparr>)"
    using parseNAWS_loop_geometry_only by blast
  then have "parseNAWS s data = s\<lparr>cols := fst g, rows := snd g\<rparr>"
    by (simp add: parseNAWS_def parseNAWS_try_def)
  then show ?thesis by blast
qed

lemma parseNAWS_other_fields:
  "mode (parseNAWS s data) = mode s \<and> destroyed (parseNAWS s data) = destroyed s
   \<and> ended (parseNAWS s data) = ended s \<and> written (parseNAWS s data) = written s
   \<and> writableLength (parseNAWS s data) = writableLength s"
proof -
  obtain g where "parseNAWS s data = s\<lparr>cols := fst g, rows := snd g\<rparr>"
    using parseNAWS_geometry_only by blast
  then show ?thesis by simp
qed

lemma js_includes_single: "js_includes tx [u] \<longleftrightarrow> u \<in> set tx"
  by (induction tx) auto

lemma lit_m: "lit ''m'' = [0x6D]" and lit_M: "lit ''M'' = [0x4D]"
  by (simp_all add: lit_def)

lemma toggle_keys_count:
  "js_includes tx (lit ''m'') \<or> js_includes tx (lit ''M'') \<longleftrightarrow> 0 < countToggleKeys tx"
  by (auto simp: lit_m lit_M js_includes_single countToggleKeys_def filter_empty_conv)

lemma mode_onData:
  "mode (onData cfg s data) =
     (if js_includes (textFromTelnet data) (lit ''m'') \<or> js_includes (textFromTelnet data) (lit ''M'')
      then mode (toggleMode s) else mode s)"
  by (simp add: onData_def Let_def sock_end_def sock_write_def toggleMode_def
      parseNAWS_other_fields)

lemma ended_onData:
  "ended (onData cfg s data) = (ended s \<or> anyKeyIn (textFromTelnet data) (quitKeys cfg))"
  by (simp add: onData_def Let_def sock_end_def sock_write_def toggleMode_def shouldQuit_def
      parseNAWS_other_fields)

lemma written_onData:
  "written (onData cfg s data) =
     (if anyKeyIn (textFromTelnet data) (quitKeys cfg) \<and> \<not> destroyed s
      then written s @ [ESC # ''[?25h'' @ [NL]] else written s)"
  by (simp add: onData_def Let_def sock_end_def sock_write_def toggleMode_def shouldQuit_def
      parseNAWS_other_fields)

lemma text_mq: "textFromTelnet [255, 109, 255, 113] = [0x6D, 0x71]"
  by (simp add: textFromTelnet_def toString_utf8_def TELNET_defs utf8_lead_def utf16_def
      utf8_init_def)

lemma text_mm: "textFromTelnet [109, 109] = [0x6D, 0x6D]"
  by (simp add: textFromTelnet_def toString_utf8_def TELNET_defs utf8_lead_def utf16_def
      utf8_init_def)

lemma lit_q: "lit ''q'' = [0x71]" and lit_Q: "lit ''Q'' = [0x51]"
  by (simp_all add: lit_def)

lemma toggle_iff_bytes:
  "js_includes (textFromTelnet data) (lit ''m'') \<or> js_includes (textFromTelnet data) (lit ''M'')
   \<longleftrightarrow> 0x6D \<in> set data \<or> 0x4D \<in> set data"
  using ascii_in_text [of "0x6D" data] ascii_in_text [of "0x4D" data]
  by (simp add: lit_m lit_M js_includes_single)

lemma shouldQuit_iff_bytes:
  "shouldQuit (CFG w h) data \<longleftrightarrow> 0x71 \<in> set data \<or> 0x51 \<in> set data"
  using ascii_in_text [of "0x71" data] ascii_in_text [of "0x51" data]
  by (simp add: shouldQuit_def CFG_def lit_q lit_Q js_includes_single)

lemma parseNAWS_loop_positive:
  "cols s \<noteq> Some 0 \<and> rows s \<noteq> Some 0 \<Longrightarrow> parseNAWS_loop data i s = Inr s' \<Longrightarrow>
   cols s' \<noteq> Some 0 \<and> rows s' \<noteq> Some 0"
proof (induction data i s rule: parseNAWS_loop.induct)
  case (1 data i s)
  show ?case
  proof (cases "i + 8 < length data")
    case False
    then show ?thesis using "1.prems" by (simp add: parseNAWS_loop_done)
  next
    case True
    then have r3: "readUInt16BE data (i + 3) = Inr (nawsW data i)"
      and r5: "readUInt16BE data (i + 5) = Inr (nawsH data i)"
      by (simp_all add: readUInt16BE_def nawsW_def nawsH_def numeral_eq_Suc)
    note ih2 = "1.IH"(2) [OF True _ _ r3 r5]
    show ?thesis
    proof (cases "nawsAt data i")
      case False
      then have "parseNAWS_loop data i s = parseNAWS_loop data (i + 1) s"
        using True by (subst parseNAWS_loop.simps) (auto simp: nawsAt_def elemAt_def r3 r5)
      then have "parseNAWS_loop data (i + 1) s = Inr s'" using "1.prems"(2) by simp
      then show ?thesis
        using False True "1.IH"(1) "1.IH"(3) "1.prems"(1)
        by (cases "elemAt data i = Some TELNET_IAC \<and> elemAt data (i + 1) = Some TELNET_SB
              \<and> elemAt data (i + 2) = Some TELNET_NAWS") (auto simp: nawsAt_def elemAt_def)
    next
      case yes: True
      define s1 where "s1 = (if nawsW data i > 0 \<and> nawsH data i > 0
        then s\<lparr>cols := Some (nawsW data i), rows := Some (nawsH data i)\<rparr> else s)"
      have "parseNAWS_loop data i s = parseNAWS_loop data (i + 1) s1"
        using True yes unfolding s1_def
        by (subst parseNAWS_loop.simps) (auto simp: nawsAt_def elemAt_def r3 r5)
      then have run: "parseNAWS_loop data (i + 1) s1 = Inr s'" using "1.prems"(2) by simp
      have pos: "cols s1 \<noteq> Some 0 \<and> rows s1 \<noteq> Some 0"
        using "1.prems"(1) by (simp add: s1_def)
      show ?thesis
        using ih2 yes True pos run unfolding s1_def by (auto simp: nawsAt_def elemAt_def)
    qed
  qed
qed

text \<open>A geometry set by \<open>parseNAWS\<close> is positive: \<open>!c.cols\<close> then means that it is unset.\<close>

lemma parseNAWS_positive:
  "cols s \<noteq> Some 0 \<and> rows s \<noteq> Some 0 \<Longrightarrow>
   cols (parseNAWS s data) \<noteq> Some 0 \<and> rows (parseNAWS s data) \<noteq> Some 0"
proof -
  assume pos: "cols s \<noteq> Some 0 \<and> rows s \<noteq> Some 0"
  obtain s' where run: "parseNAWS_loop data 0 s = Inr s'"
    using parseNAWS_loop_returns by blast
  then have "parseNAWS s data = s'" by (simp add: parseNAWS_def parseNAWS_try_def)
  then show ?thesis using parseNAWS_loop_positive [OF pos run] by simp
qed


lemma cols_rows_onData:
  "cols (onData cfg s data) = cols (parseNAWS s data)
   \<and> rows (onData cfg s data) = rows (parseNAWS s data)"
  by (simp add: onData_def Let_def sock_end_def sock_write_def toggleMode_def)

lemma report_109_cols:
  "parseNAWS s [255, 250, 31, 0, 109, 0, 24, 255, 240] = s\<lparr>cols := Some 109, rows := Some 24\<rparr>"
  by (simp add: parseNAWS_def parseNAWS_try_def parseNAWS_loop.simps elemAt_def readUInt16BE_def
      TELNET_defs)

lemma report_113_rows:
  "parseNAWS s [255, 250, 31, 0, 80, 0, 113, 255, 240] = s\<lparr>cols := Some 80, rows := Some 113\<rparr>"
  by (simp add: parseNAWS_def parseNAWS_try_def parseNAWS_loop.simps elemAt_def readUInt16BE_def
      TELNET_defs)

lemma text_report_109:
  "textFromTelnet [255, 250, 31, 0, 109, 0, 24, 255, 240] = [0xFFFD, 31, 0, 0x6D, 0, 24, 0xFFFD]"
  by (simp add: textFromTelnet_def toString_utf8_def TELNET_defs utf8_lead_def utf16_def
      utf8_init_def)

lemma text_report_113:
  "textFromTelnet [255, 250, 31, 0, 80, 0, 113, 255, 240] = [0xFFFD, 31, 0, 80, 0, 0x71, 0xFFFD]"
  by (simp add: textFromTelnet_def toString_utf8_def TELNET_defs utf8_lead_def utf16_def
      utf8_init_def)

text \<open>
  C3: for every chunk the quit scan and the mode scan are to read the text of the chunk
  with the bytes of telnet negotiation taken out, independently of each other.  The two
  scans are independent, but \<open>textFromTelnet\<close> takes out only the bytes equal to \<open>IAC\<close>,
  against its own comment (that telnet negotiation should not pollute the text): the size
  bytes of
  a window-size report stay in the text and are scanned as keys.  For a client that has
  just connected, the report of 109 columns by 24 rows sets the geometry and also changes
  the mode from 2 to 1, 109 being the code of \<open>m\<close>; the report of 80 columns by 113 rows sets
  the geometry, writes the cursor-restore sequence and ends the connection, 113 being the
  code of \<open>q\<close>.
\<close>

theorem naws_report_scanned_as_keys:
  "mode newSock = Some 2 \<and> \<not> ended newSock
   \<and> textFromTelnet [255, 250, 31, 0, 109, 0, 24, 255, 240]
       = [0xFFFD, 31, 0, 0x6D, 0, 24, 0xFFFD]
   \<and> cols (onData (CFG 240 135) newSock [255, 250, 31, 0, 109, 0, 24, 255, 240]) = Some 109
   \<and> rows (onData (CFG 240 135) newSock [255, 250, 31, 0, 109, 0, 24, 255, 240]) = Some 24
   \<and> mode (onData (CFG 240 135) newSock [255, 250, 31, 0, 109, 0, 24, 255, 240]) = Some 1
   \<and> \<not> ended (onData (CFG 240 135) newSock [255, 250, 31, 0, 109, 0, 24, 255, 240])
   \<and> written (onData (CFG 240 135) newSock [255, 250, 31, 0, 109, 0, 24, 255, 240])
       = written newSock
   \<and> textFromTelnet [255, 250, 31, 0, 80, 0, 113, 255, 240]
       = [0xFFFD, 31, 0, 80, 0, 0x71, 0xFFFD]
   \<and> cols (onData (CFG 240 135) newSock [255, 250, 31, 0, 80, 0, 113, 255, 240]) = Some 80
   \<and> rows (onData (CFG 240 135) newSock [255, 250, 31, 0, 80, 0, 113, 255, 240]) = Some 113
   \<and> mode (onData (CFG 240 135) newSock [255, 250, 31, 0, 80, 0, 113, 255, 240]) = Some 2
   \<and> ended (onData (CFG 240 135) newSock [255, 250, 31, 0, 80, 0, 113, 255, 240])
   \<and> written (onData (CFG 240 135) newSock [255, 250, 31, 0, 80, 0, 113, 255, 240])
       = written newSock @ [ESC # ''[?25h'' @ [NL]]"
  by (simp add: cols_rows_onData report_109_cols report_113_rows mode_onData ended_onData
      written_onData text_report_109 text_report_113 lit_m lit_M lit_q lit_Q CFG_def
      toggleMode_def newSock_def MODE_DEFAULT_def)

text \<open>
  C10: the handler changes the mode once when the text of the chunk holds at least one \<open>m\<close>
  or \<open>M\<close>, however many there are, and leaves it alone otherwise; the mode after one
  change differs from the mode before.
\<close>

theorem mode_flips_once:
  "mode (onData cfg s data) =
     (if 0 < countToggleKeys (textFromTelnet data) then mode (toggleMode s) else mode s)
   \<and> mode (toggleMode s) \<noteq> mode s"
  using mode_onData [of cfg s data] toggle_keys_count [of "textFromTelnet data"]
  by (simp add: toggleMode_def)

theorem mode_flips_once_witness:
  "countToggleKeys (textFromTelnet [109, 109]) = 2
   \<and> mode newSock = Some 2
   \<and> mode (onData (CFG 240 135) newSock [109, 109]) = Some 1
   \<and> mode (toggleMode (toggleMode newSock)) = Some 2"
  using mode_flips_once [of "CFG 240 135" newSock "[109, 109]"]
  by (simp add: text_mm countToggleKeys_def toggleMode_def newSock_def MODE_DEFAULT_def)

section \<open>Frame reassembly\<close>

lemma frame_loop_yield:
  assumes "0 < bpf"
  shows "\<exists>fs rest. frame_loop yield bpf acc data = Some (acc @ fs, rest)
      \<and> concat fs @ rest = data \<and> (\<forall>f \<in> set fs. length f = bpf) \<and> length rest < bpf"
proof (induction "length data" arbitrary: acc data rule: less_induct)
  case less
  show ?case
  proof (cases "bpf \<le> length data")
    case False
    then have "frame_loop yield bpf acc data = Some (acc @ [], data)"
      by (subst frame_loop.simps) simp
    moreover have "length data < bpf" using False by simp
    ultimately show ?thesis by fastforce
  next
    case True
    then have shorter: "length (drop bpf data) < length data"
      using assms by simp
    obtain fs rest where
      run: "frame_loop yield bpf (acc @ [take bpf data]) (drop bpf data)
              = Some ((acc @ [take bpf data]) @ fs, rest)"
      and cat: "concat fs @ rest = drop bpf data"
      and len: "\<forall>f \<in> set fs. length f = bpf"
      and rest: "length rest < bpf"
      using less [OF shorter] by blast
    have "frame_loop yield bpf acc data = Some (acc @ (take bpf data # fs), rest)"
      using True run by (subst frame_loop.simps) (simp add: yield_def)
    moreover have "concat (take bpf data # fs) @ rest = data"
      using cat by simp
    moreover have "\<forall>f \<in> set (take bpf data # fs). length f = bpf"
      using len True by simp
    ultimately show ?thesis using rest by blast
  qed
qed

lemma onChunk_yield:
  assumes "0 < bpf"
  shows "\<exists>fs rest. onChunk yield bpf (acc, l) chunk = Some (acc @ fs, rest)
      \<and> concat fs @ rest = l @ chunk \<and> (\<forall>f \<in> set fs. length f = bpf) \<and> length rest < bpf"
proof -
  have "(if l \<noteq> [] then l @ chunk else chunk) = l @ chunk" by simp
  then have "onChunk yield bpf (acc, l) chunk = frame_loop yield bpf acc (l @ chunk)"
    by (simp add: onChunk_def)
  then show ?thesis
    using frame_loop_yield [OF assms, of acc "l @ chunk"] by simp
qed

lemma feed_yield:
  assumes "0 < bpf"
  shows "length l < bpf \<Longrightarrow>
    \<exists>fs rest. feed yield bpf (acc, l) chunks = Some (acc @ fs, rest)
      \<and> concat fs @ rest = l @ concat chunks \<and> (\<forall>f \<in> set fs. length f = bpf)
      \<and> length rest < bpf"
proof (induction chunks arbitrary: acc l)
  case Nil
  then have "feed yield bpf (acc, l) [] = Some (acc @ [], l)" by simp
  with Nil show ?case by fastforce
next
  case (Cons chunk chunks)
  obtain fs rest where
    one: "onChunk yield bpf (acc, l) chunk = Some (acc @ fs, rest)"
    and cat: "concat fs @ rest = l @ chunk"
    and len: "\<forall>f \<in> set fs. length f = bpf"
    and rest: "length rest < bpf"
    using onChunk_yield [OF assms] by blast
  obtain gs rest' where
    more: "feed yield bpf (acc @ fs, rest) chunks = Some ((acc @ fs) @ gs, rest')"
    and cat': "concat gs @ rest' = rest @ concat chunks"
    and len': "\<forall>f \<in> set gs. length f = bpf"
    and rest': "length rest' < bpf"
    using Cons.IH [OF rest] by blast
  have "feed yield bpf (acc, l) (chunk # chunks) = Some (acc @ (fs @ gs), rest')"
    using one more by simp
  moreover have "concat (fs @ gs) @ rest' = l @ concat (chunk # chunks)"
    using cat cat' by (metis append.assoc concat.simps(2) concat_append)
  moreover have "\<forall>f \<in> set (fs @ gs). length f = bpf"
    using len len' by auto
  ultimately show ?case using rest' by blast
qed

lemma length_concat_frames: "\<forall>f \<in> set fs. length f = n \<Longrightarrow> length (concat fs) = n * length fs"
  by (induction fs) simp_all

lemma frames_unique:
  assumes "0 < n"
  shows "\<forall>f \<in> set fs. length f = n \<Longrightarrow> \<forall>f \<in> set gs. length f = n \<Longrightarrow>
    concat fs = concat gs \<Longrightarrow> fs = gs"
proof (induction fs arbitrary: gs)
  case Nil
  have "length (concat gs) = n * length gs"
    using Nil.prems(2) by (rule length_concat_frames)
  moreover have "concat gs = []" using Nil.prems(3) by simp
  ultimately have "n * length gs = 0" by simp
  then show ?case using assms by simp
next
  case (Cons f fs)
  have "gs \<noteq> []"
  proof
    assume "gs = []"
    then have "concat (f # fs) = []" using Cons.prems(3) by simp
    then have "f = []" by simp
    then show False using Cons.prems(1) assms by simp
  qed
  then obtain g gs' where gs: "gs = g # gs'" by (cases gs) auto
  have "length f = length g" using Cons.prems(1,2) gs by simp
  then have "f = g \<and> concat fs = concat gs'"
    using Cons.prems(3) gs by simp
  then show ?case using Cons.IH [of gs'] Cons.prems(1,2) gs by simp
qed

lemma feed_whole_frames:
  assumes "0 < bpf" and "length (concat chunks) mod bpf = 0"
  shows "\<exists>frames. feed yield bpf ([], []) chunks = Some (frames, [])
     \<and> concat frames = concat chunks \<and> (\<forall>f \<in> set frames. length f = bpf)"
proof -
  obtain fs rest where
    run: "feed yield bpf ([], []) chunks = Some ([] @ fs, rest)"
    and cat: "concat fs @ rest = [] @ concat chunks"
    and len: "\<forall>f \<in> set fs. length f = bpf"
    and rest: "length rest < bpf"
    using feed_yield [OF assms(1), of "[]" "[]" chunks] assms(1) by auto
  have "length (concat fs) + length rest = length (concat chunks)"
    using cat by (metis append_Nil length_append)
  moreover have "length (concat fs) = bpf * length fs"
    using len by (rule length_concat_frames)
  ultimately have "(bpf * length fs + length rest) mod bpf = 0"
    using assms(2) by simp
  then have "length rest mod bpf = 0" by simp
  then have "rest = []" using rest by simp
  then show ?thesis using run cat len by simp
qed

lemma frame_loop_act:
  assumes "0 < bpf"
  shows "frame_loop yield bpf acc data = Some (acc @ fs, rest) \<Longrightarrow>
    frame_loop act bpf st data = Some (foldl (\<lambda>s f. act f s) st fs, rest)"
proof (induction "length data" arbitrary: acc data fs st rest rule: less_induct)
  case less
  show ?case
  proof (cases "bpf \<le> length data")
    case False
    then have "frame_loop yield bpf acc data = Some (acc, data)"
      and "frame_loop act bpf st data = Some (st, data)"
      by (subst frame_loop.simps, simp)+
    then show ?thesis using less.prems by simp
  next
    case True
    then have shorter: "length (drop bpf data) < length data"
      using assms by simp
    have step: "frame_loop yield bpf acc data
        = frame_loop yield bpf (acc @ [take bpf data]) (drop bpf data)"
      using True by (subst frame_loop.simps) (simp add: yield_def)
    obtain gs rest' where
      run: "frame_loop yield bpf (acc @ [take bpf data]) (drop bpf data)
              = Some ((acc @ [take bpf data]) @ gs, rest')"
      using frame_loop_yield [OF assms] by blast
    then have fs: "fs = take bpf data # gs" and rest: "rest' = rest"
      using step less.prems by simp_all
    have "frame_loop act bpf (act (take bpf data) st) (drop bpf data)
        = Some (foldl (\<lambda>s f. act f s) (act (take bpf data) st) gs, rest')"
      using less.hyps [OF shorter run] .
    moreover have "frame_loop act bpf st data
        = frame_loop act bpf (act (take bpf data) st) (drop bpf data)"
      using True by (subst frame_loop.simps) simp
    ultimately show ?thesis using fs rest by simp
  qed
qed

text \<open>
  The \<open>stdout\<close> handler returns for a positive frame size, and runs the broadcast pass on
  the frames that \<open>yield\<close> records, in their order.
\<close>

lemma onStdoutData_frames:
  assumes "0 < bytesPerFrame cfg"
  shows "\<exists>fs rest. onChunk yield (bytesPerFrame cfg) ([], leftover st) chunk = Some (fs, rest)
    \<and> onStdoutData rnd wr cfg st chunk
        = Some ((foldl (\<lambda>s f. broadcast rnd wr cfg f s) st fs)\<lparr>leftover := rest\<rparr>)"
proof -
  let ?data = "leftover st @ chunk"
  have data: "(if leftover st \<noteq> [] then leftover st @ chunk else chunk) = ?data" by simp
  obtain fs rest where
    run: "frame_loop yield (bytesPerFrame cfg) [] ?data = Some ([] @ fs, rest)"
    using frame_loop_yield [OF assms] by blast
  have "frame_loop (broadcast rnd wr cfg) (bytesPerFrame cfg) st ?data
      = Some (foldl (\<lambda>s f. broadcast rnd wr cfg f s) st fs, rest)"
    using frame_loop_act [OF assms run] .
  then show ?thesis using run unfolding onStdoutData_def onChunk_def Let_def fst_conv snd_conv data
    by simp
qed

text \<open>
  C4: for a positive frame size and chunks whose bytes add up to a whole number of frames,
  the frames handed to the loop body, in order, all have the frame size and concatenate to
  the stream, nothing is carried over at the end, and every other way of cutting the same
  stream into chunks hands over the same frames.
\<close>

theorem demux_chunking_independent:
  assumes "0 < bytesPerFrame cfg"
    and "length (concat chunks) mod bytesPerFrame cfg = 0"
  shows "\<exists>frames. feed yield (bytesPerFrame cfg) ([], []) chunks = Some (frames, [])
     \<and> concat frames = concat chunks
     \<and> (\<forall>f \<in> set frames. length f = bytesPerFrame cfg)
     \<and> (\<forall>chunks'. concat chunks' = concat chunks \<longrightarrow>
           feed yield (bytesPerFrame cfg) ([], []) chunks' = Some (frames, []))"
proof -
  obtain frames where
    run: "feed yield (bytesPerFrame cfg) ([], []) chunks = Some (frames, [])"
    and cat: "concat frames = concat chunks"
    and len: "\<forall>f \<in> set frames. length f = bytesPerFrame cfg"
    using feed_whole_frames [OF assms] by blast
  have "feed yield (bytesPerFrame cfg) ([], []) chunks' = Some (frames, [])"
    if same: "concat chunks' = concat chunks" for chunks'
  proof -
    have "length (concat chunks') mod bytesPerFrame cfg = 0"
      using assms(2) same by simp
    then have "\<exists>frames'. feed yield (bytesPerFrame cfg) ([], []) chunks' = Some (frames', [])
        \<and> concat frames' = concat chunks'
        \<and> (\<forall>f \<in> set frames'. length f = bytesPerFrame cfg)"
      by (rule feed_whole_frames [OF assms(1)])
    then obtain frames' where
      run': "feed yield (bytesPerFrame cfg) ([], []) chunks' = Some (frames', [])"
      and cat': "concat frames' = concat chunks'"
      and len': "\<forall>f \<in> set frames'. length f = bytesPerFrame cfg"
      by blast
    have "frames' = frames"
      using frames_unique [OF assms(1) len' len] cat cat' same by simp
    then show ?thesis using run' by simp
  qed
  then show ?thesis using run cat len by blast
qed

lemma feed_example:
  "feed yield 3 ([], []) [[1, 2], [3, 4, 5, 6], [], [7, 8, 9]]
     = Some ([[1, 2, 3], [4, 5, 6], [7, 8, 9]], [])"
  by (simp add: onChunk_def frame_loop.simps yield_def)

theorem demux_chunking_independent_witness:
  "bytesPerFrame (CFG 1 1) = 3
   \<and> feed yield (bytesPerFrame (CFG 1 1)) ([], []) [[1, 2], [3, 4, 5, 6], [], [7, 8, 9]]
       = Some ([[1, 2, 3], [4, 5, 6], [7, 8, 9]], [])
   \<and> feed yield (bytesPerFrame (CFG 1 1)) ([], []) [[1], [2], [3], [4], [5], [6], [7], [8], [9]]
       = Some ([[1, 2, 3], [4, 5, 6], [7, 8, 9]], [])
   \<and> feed yield (bytesPerFrame (CFG 1 1)) ([], []) [[1, 2, 3], [4, 5, 6], [7, 8, 9]]
       = Some ([[1, 2, 3], [4, 5, 6], [7, 8, 9]], [])"
proof -
  have bpf: "bytesPerFrame (CFG 1 1) = 3" by (simp add: bytesPerFrame_def CFG_def)
  have "\<exists>frames. feed yield 3 ([], []) [[1, 2], [3, 4, 5, 6], [], [7, 8, 9]] = Some (frames, [])
     \<and> concat frames = concat [[1, 2], [3, 4, 5, 6], [], [7, 8, 9]]
     \<and> (\<forall>f \<in> set frames. length f = 3)
     \<and> (\<forall>chunks'. concat chunks' = concat [[1, 2], [3, 4, 5, 6], [], [7, 8, 9]] \<longrightarrow>
           feed yield 3 ([], []) chunks' = Some (frames, []))"
    by (rule demux_chunking_independent [of "CFG 1 1" "[[1, 2], [3, 4, 5, 6], [], [7, 8, 9]]",
          unfolded bpf]) simp_all
  then obtain frames where
    run: "feed yield 3 ([], []) [[1, 2], [3, 4, 5, 6], [], [7, 8, 9]] = Some (frames, [])"
    and others: "\<And>chunks'. concat chunks' = concat [[1, 2], [3, 4, 5, 6], [], [7, 8, 9]] \<Longrightarrow>
           feed yield 3 ([], []) chunks' = Some (frames, [])"
    by blast
  have frames: "frames = [[1, 2, 3], [4, 5, 6], [7, 8, 9]]"
    using run unfolding feed_example by simp
  have a: "feed yield 3 ([], []) [[1], [2], [3], [4], [5], [6], [7], [8], [9]] = Some (frames, [])"
    by (rule others) simp
  have b: "feed yield 3 ([], []) [[1, 2, 3], [4, 5, 6], [7, 8, 9]] = Some (frames, [])"
    by (rule others) simp
  show ?thesis
    unfolding bpf using run a b unfolding frames by blast
qed

section \<open>The broadcast pass\<close>

lemma broadcastTo_other:
  "c \<noteq> d \<Longrightarrow> heap (broadcastTo rnd wr cfg frame st d) c = heap st c
     \<and> (c \<in> set (clients (broadcastTo rnd wr cfg frame st d)) \<longleftrightarrow> c \<in> set (clients st))"
  by (simp add: broadcastTo_def Let_def evict_def split: sum.splits prod.splits)

lemma broadcast_loop_other:
  "c \<notin> set ds \<Longrightarrow> heap (foldl (broadcastTo rnd wr cfg frame) st ds) c = heap st c
     \<and> (c \<in> set (clients (foldl (broadcastTo rnd wr cfg frame) st ds))
          \<longleftrightarrow> c \<in> set (clients st))"
proof (induction ds arbitrary: st)
  case Nil
  show ?case by simp
next
  case (Cons d ds)
  then have "c \<noteq> d" and "c \<notin> set ds" by simp_all
  then show ?case
    using Cons.IH [of "broadcastTo rnd wr cfg frame st d"]
      broadcastTo_other [of c d rnd wr cfg frame st]
    by simp
qed

lemma broadcast_split:
  assumes "distinct (clients st)" and "c \<in> set (clients st)"
  shows "\<exists>st1. heap st1 c = heap st c \<and> c \<in> set (clients st1)
    \<and> heap (broadcast rnd wr cfg frame st) c
        = heap (broadcastTo rnd wr cfg frame st1 c) c
    \<and> (c \<in> set (clients (broadcast rnd wr cfg frame st))
        \<longleftrightarrow> c \<in> set (clients (broadcastTo rnd wr cfg frame st1 c)))"
proof -
  obtain xs ys where split: "clients st = xs @ c # ys"
    using assms(2) by (meson split_list)
  then have nx: "c \<notin> set xs" and ny: "c \<notin> set ys"
    using assms(1) by simp_all
  let ?step = "broadcastTo rnd wr cfg frame"
  let ?st1 = "foldl ?step st xs"
  have "broadcast rnd wr cfg frame st = foldl ?step (?step ?st1 c) ys"
    by (simp add: broadcast_def split)
  moreover have "heap ?st1 c = heap st c \<and> (c \<in> set (clients ?st1) \<longleftrightarrow> c \<in> set (clients st))"
    using nx by (rule broadcast_loop_other)
  moreover have "heap (foldl ?step (?step ?st1 c) ys) c = heap (?step ?st1 c) c
      \<and> (c \<in> set (clients (foldl ?step (?step ?st1 c) ys)) \<longleftrightarrow> c \<in> set (clients (?step ?st1 c)))"
    using ny by (rule broadcast_loop_other)
  ultimately show ?thesis using assms(2) by auto
qed

text \<open>
  C5: in one pass over a set of distinct sockets, a socket that is destroyed, or whose
  \<open>cols\<close> or \<open>rows\<close> is unset or zero, or whose \<open>writableLength\<close> exceeds
  \<open>dropIfBufferedOver\<close>, is left as it was and stays in the set; any other socket goes
  through the \<open>try\<close> block: when that throws the socket is destroyed and deleted from the
  set, otherwise it stays in the set with the result of the write.  This holds for each
  socket of the set whatever happens to the others in the same pass.
\<close>

theorem broadcast_isolation:
  assumes "distinct (clients st)" and "c \<in> set (clients st)"
  shows "if destroyed (heap st c) \<or> falsy (cols (heap st c)) \<or> falsy (rows (heap st c))
            \<or> dropIfBufferedOver cfg < writableLength (heap st c)
     then heap (broadcast rnd wr cfg frame st) c = heap st c
        \<and> c \<in> set (clients (broadcast rnd wr cfg frame st))
     else (case tryBlock rnd wr frame (heap st c) of
             Inl (e, s') \<Rightarrow>
               heap (broadcast rnd wr cfg frame st) c = sock_destroy s'
               \<and> c \<notin> set (clients (broadcast rnd wr cfg frame st))
           | Inr s' \<Rightarrow>
               heap (broadcast rnd wr cfg frame st) c = s'
               \<and> c \<in> set (clients (broadcast rnd wr cfg frame st)))"
proof -
  obtain st1 where same: "heap st1 c = heap st c" and reg: "c \<in> set (clients st1)"
    and h: "heap (broadcast rnd wr cfg frame st) c
        = heap (broadcastTo rnd wr cfg frame st1 c) c"
    and m: "c \<in> set (clients (broadcast rnd wr cfg frame st))
        \<longleftrightarrow> c \<in> set (clients (broadcastTo rnd wr cfg frame st1 c))"
    using broadcast_split [OF assms] by blast
  show ?thesis
    unfolding h m using same reg
    by (simp add: broadcastTo_def Let_def evict_def split: sum.splits prod.splits)
qed

theorem broadcast_isolation_witness:
  "heap (broadcast renderX writeEnded (CFG 1 1) [0, 0, 0] fourClients) 0 = heap fourClients 0
   \<and> 0 \<in> set (clients (broadcast renderX writeEnded (CFG 1 1) [0, 0, 0] fourClients))
   \<and> written (heap (broadcast renderX writeEnded (CFG 1 1) [0, 0, 0] fourClients) 1)
       = written newSock @ [''x'']
   \<and> 1 \<in> set (clients (broadcast renderX writeEnded (CFG 1 1) [0, 0, 0] fourClients))
   \<and> destroyed (heap (broadcast renderX writeEnded (CFG 1 1) [0, 0, 0] fourClients) 2)
   \<and> 2 \<notin> set (clients (broadcast renderX writeEnded (CFG 1 1) [0, 0, 0] fourClients))
   \<and> written (heap (broadcast renderX writeEnded (CFG 1 1) [0, 0, 0] fourClients) 3)
       = written newSock @ [''x'']
   \<and> 3 \<in> set (clients (broadcast renderX writeEnded (CFG 1 1) [0, 0, 0] fourClients))"
  using broadcast_isolation [of fourClients 0 "CFG 1 1" renderX writeEnded "[0, 0, 0]"]
    broadcast_isolation [of fourClients 1 "CFG 1 1" renderX writeEnded "[0, 0, 0]"]
    broadcast_isolation [of fourClients 2 "CFG 1 1" renderX writeEnded "[0, 0, 0]"]
    broadcast_isolation [of fourClients 3 "CFG 1 1" renderX writeEnded "[0, 0, 0]"]
  by (simp add: fourClients_def initial_def newSock_def falsy_def CFG_def tryBlock_def
      renderX_def writeEnded_def writeOk_def sock_write_def sock_destroy_def)

section \<open>The playlist\<close>

lemma onClose_resets_leftover:
  "leftover (case onClose pl st of Inl (e, st') \<Rightarrow> st' | Inr st' \<Rightarrow> st') = []"
  by (simp add: onClose_def playNext_def Let_def split: option.splits)

lemma onClose_shuttingDown: "shuttingDown st \<Longrightarrow> onClose pl st = Inr (st\<lparr>leftover := []\<rparr>)"
  by (simp add: onClose_def)

text \<open>
  C8: with a playlist of three items and no shutdown requested, the start of the server
  and three \<open>close\<close> events of the decoder start the items 0, 1, 2 and 0 again, each close
  replacing the decoder by a new one, and after each close the carry-over buffer is empty,
  whatever the handlers that ran in between have left in it, in the set of clients and in
  the sockets.
\<close>

theorem playlist_wraps:
  "\<exists>s0 s1 s2 s3.
      playNext [a, b, c] initial = Inr s0
    \<and> onClose [a, b, c] (s0\<lparr>clients := c1, heap := h1, leftover := l1\<rparr>) = Inr s1
    \<and> onClose [a, b, c] (s1\<lparr>clients := c2, heap := h2, leftover := l2\<rparr>) = Inr s2
    \<and> onClose [a, b, c] (s2\<lparr>clients := c3, heap := h3, leftover := l3\<rparr>) = Inr s3
    \<and> \<not> shuttingDown s0 \<and> \<not> shuttingDown s1 \<and> \<not> shuttingDown s2
    \<and> started s0 = [a] \<and> started s1 = [a, b] \<and> started s2 = [a, b, c]
    \<and> started s3 = [a, b, c, a]
    \<and> ff s0 = Some 0 \<and> ff s1 = Some 1 \<and> ff s2 = Some 2 \<and> ff s3 = Some 3
    \<and> leftover s1 = [] \<and> leftover s2 = [] \<and> leftover s3 = []
    \<and> currentIndex s0 = 1 \<and> currentIndex s1 = 2 \<and> currentIndex s2 = 0
    \<and> currentIndex s3 = 1"
  by (simp add: playNext_def onClose_def initial_def elemAt_def Let_def)

end
